theory Spec2Isabelle
  imports Main "HOL-Library.Char_ord" "HOL-Library.List_Lexorder"
begin

section \<open>Go library functions used by the patcher\<close>

text \<open>
  A Go string is a sequence of bytes; it is modelled as a \<open>string\<close> (a list of 8-bit
  characters). The functions of package \<open>strings\<close> and \<open>path/filepath\<close> that the
  patcher calls are written out below. Indices are \<open>int\<close>, with \<open>-1\<close> for "not
  found", as in Go.

  Scope: \<open>ToLower\<close> and \<open>TrimSpace\<close> are the functions of Go on ASCII strings, where
  \<open>strings.ToLower\<close> maps the letters \<open>A\<close> to \<open>Z\<close> and \<open>strings.TrimSpace\<close>
  trims tab, line feed, vertical tab, form feed, carriage return and space. On a name
  with a byte from \<open>0x80\<close> on, Go decodes UTF-8 and maps Unicode letters and trims
  Unicode white space; here such bytes are left as they are, so the model covers ASCII
  file names only.
\<close>

definition lowerChar :: "char \<Rightarrow> char" where
  "lowerChar c =
     (if 65 \<le> (of_char c :: nat) \<and> (of_char c :: nat) \<le> 90
      then char_of ((of_char c :: nat) + 32) else c)"

definition ToLower :: "string \<Rightarrow> string" where
  "ToLower s = map lowerChar s"

definition isSpace :: "char \<Rightarrow> bool" where
  "isSpace c = ((of_char c :: nat) \<in> {9, 10, 11, 12, 13, 32})"

definition TrimSpace :: "string \<Rightarrow> string" where
  "TrimSpace s = rev (dropWhile isSpace (rev (dropWhile isSpace s)))"

definition HasPrefix :: "string \<Rightarrow> string \<Rightarrow> bool" where
  "HasPrefix s pre = (length pre \<le> length s \<and> take (length pre) s = pre)"

definition HasSuffix :: "string \<Rightarrow> string \<Rightarrow> bool" where
  "HasSuffix s suf = (length suf \<le> length s \<and> drop (length s - length suf) s = suf)"

definition TrimSuffix :: "string \<Rightarrow> string \<Rightarrow> string" where
  "TrimSuffix s suf = (if HasSuffix s suf then take (length s - length suf) s else s)"

text \<open>\<open>strings.Index\<close>: the index of the first occurrence of \<open>substr\<close>, or \<open>-1\<close>.\<close>

fun Index :: "string \<Rightarrow> string \<Rightarrow> int" where
  "Index [] substr = (if substr = [] then 0 else -1)"
| "Index (c # s) substr =
     (if HasPrefix (c # s) substr then 0
      else (let i = Index s substr in if i < 0 then -1 else i + 1))"

definition Contains :: "string \<Rightarrow> string \<Rightarrow> bool" where
  "Contains s substr = (Index s substr \<ge> 0)"

text \<open>
  \<open>strings.Split\<close> cuts at every non-overlapping occurrence of the separator, from the
  left; with an empty separator it returns the characters one by one.
\<close>

function Split :: "string \<Rightarrow> string \<Rightarrow> string list" where
  "Split s sep =
     (if sep = [] then map (\<lambda>c. [c]) s
      else (let m = Index s sep in
            if m < 0 then [s]
            else take (nat m) s # Split (drop (nat m + length sep) s) sep))"
  by pat_completeness auto
termination
proof (relation "measure (\<lambda>(s, sep). length s)")
  show "wf (measure (\<lambda>(s, sep). length s))" by simp
next
  fix s sep :: string and m :: int
  assume sep: "sep \<noteq> []" and m: "m = Index s sep" and nn: "\<not> m < 0"
  have "s \<noteq> []"
  proof
    assume "s = []"
    with sep m have "m = -1" by simp
    with nn show False by simp
  qed
  moreover from sep have "0 < nat m + length sep" by simp
  ultimately show "((drop (nat m + length sep) s, sep), (s, sep)) \<in> measure (\<lambda>(s, sep). length s)"
    by simp
qed

declare Split.simps [simp del]

fun Join :: "string list \<Rightarrow> string \<Rightarrow> string" where
  "Join [] sep = []"
| "Join [x] sep = x"
| "Join (x # y # ys) sep = x @ sep @ Join (y # ys) sep"

text \<open>\<open>strings.ReplaceAll\<close> is only called to delete a one-character substring.\<close>

definition RemoveAll :: "string \<Rightarrow> char \<Rightarrow> string" where
  "RemoveAll s c = filter (\<lambda>x. x \<noteq> c) s"

text \<open>
  \<open>filepath.Ext\<close> scans from the end of the path up to the last path separator and
  returns the suffix that starts at the last dot, or the empty string. The separator is
  the slash; the file names of a directory listing contain none.
\<close>

definition IsPathSeparator :: "char \<Rightarrow> bool" where
  "IsPathSeparator c = (c = CHR ''/'')"

fun extScan :: "string \<Rightarrow> string \<Rightarrow> string" where
  "extScan [] acc = []"
| "extScan (c # front) acc =
     (if IsPathSeparator c then []
      else if c = CHR ''.'' then c # acc
      else extScan front (c # acc))"

definition Ext :: "string \<Rightarrow> string" where
  "Ext path = extScan (rev path) []"

text \<open>\<open>fmt.Sprintf("%d", n)\<close> for the counts and the time stamp.\<close>

fun showNat :: "nat \<Rightarrow> string" where
  "showNat n =
     (if n < 10 then [char_of (48 + n)]
      else showNat (n div 10) @ [char_of (48 + n mod 10)])"

declare showNat.simps [simp del]

definition showInt :: "int \<Rightarrow> string" where
  "showInt i = (if i < 0 then CHR ''-'' # showNat (nat (- i)) else showNat (nat i))"

section \<open>The name normalizer (rom.go)\<close>

record Rom =
  FileName :: string
  Name :: string
  AlternateNames :: "string list"

definition ConfigName :: "Rom \<Rightarrow> string" where
  "ConfigName r = TrimSuffix (FileName r) (Ext (FileName r)) @ ''.cfg''"

text \<open>One round of the loop of \<open>getBaseName\<close>: cut at the marker if it is found past index 0.\<close>

definition cutAt :: "string \<Rightarrow> string \<Rightarrow> string" where
  "cutAt fileName substr =
     (let i = Index fileName substr in if i > 0 then take (nat i) fileName else fileName)"

definition getBaseName :: "string \<Rightarrow> string" where
  "getBaseName fileName = ToLower (TrimSpace (foldl cutAt fileName [''.'', ''['', ''('']))"

fun containsItem :: "string list \<Rightarrow> string \<Rightarrow> bool" where
  "containsItem [] needle = False"
| "containsItem (i # haystack) needle = (if i = needle then True else containsItem haystack needle)"

definition uniqueItems :: "string list \<Rightarrow> string list" where
  "uniqueItems slice =
     foldl (\<lambda>uniqueSlice item.
              if \<not> containsItem uniqueSlice item then uniqueSlice @ [item] else uniqueSlice)
           [] slice"

text \<open>
  The corrected name of \<open>getAlternateNames\<close>, for a (lowercase) name that starts with
  \<open>the\<close> or contains \<open>, the\<close>.
\<close>

definition correctedName :: "string \<Rightarrow> string" where
  "correctedName name =
     (if HasPrefix name ''the '' then
        (let nameParts = Split (drop 4 name) '' - '' in
         Join (nameParts[0 := nameParts ! 0 @ '', the'']) '' - '')
      else
        (let i = nat (Index name '', the'') in
         ''the '' @ take i name @ drop (i + 5) name))"

function getAlternateNames :: "string \<Rightarrow> bool \<Rightarrow> string list" where
  "getAlternateNames name0 recursive =
     (let name = ToLower name0;
          alternates = [name];
          alternates =
            (if HasPrefix name ''the '' \<or> Contains name '', the'' then
               alternates @ [correctedName name]
                 @ (if recursive then getAlternateNames (correctedName name) False else [])
             else alternates);
          alternates =
            (if Index name [CHR 0x27] \<ge> 0 then alternates @ [RemoveAll name (CHR 0x27)]
             else alternates)
      in uniqueItems alternates)"
  by pat_completeness auto
termination
  by (relation "measure (\<lambda>(name, recursive). if recursive then 1 else 0)") auto

declare getAlternateNames.simps [simp del]

definition NewRom :: "string \<Rightarrow> Rom" where
  "NewRom fileName =
     (let baseName = getBaseName fileName in
      \<lparr>FileName = fileName, Name = baseName, AlternateNames = getAlternateNames baseName True\<rparr>)"

section \<open>The matcher (patcher.go)\<close>

datatype matchType = MatchTypeExact | MatchTypeAlternate | MatchTypeFuzzy | MatchTypeNone

text \<open>
  A \<open>*Rom\<close> is modelled as the address of the (immutable) \<open>Rom\<close> together with the
  \<open>Rom\<close> it points to; comparing two pointers compares the addresses. A nil pointer
  is \<open>None\<close>.
\<close>

type_synonym RomPtr = "nat \<times> Rom"

record match =
  configFile :: "RomPtr option"
  rom :: "RomPtr option"
  matchType :: matchType
  isExisting :: bool

definition samePtr :: "RomPtr option \<Rightarrow> RomPtr \<Rightarrow> bool" where
  "samePtr p q = (case p of None \<Rightarrow> False | Some p' \<Rightarrow> fst p' = fst q)"

text \<open>
  The body of the inner loop of \<open>matchRomSets\<close>, for one configuration file and one ROM:
  the match that is appended before \<open>continue matchLoop\<close>, if any rule fires.
\<close>

definition matchPair :: "RomPtr \<Rightarrow> RomPtr \<Rightarrow> match option" where
  "matchPair c r =
     (if Name (snd c) = Name (snd r) then
        Some \<lparr>configFile = Some c, rom = Some r, matchType = MatchTypeExact,
              isExisting = (ToLower (FileName (snd c)) = ToLower (ConfigName (snd r)))\<rparr>
      else if list_ex (\<lambda>romAlternateName. Name (snd c) = romAlternateName)
                (AlternateNames (snd r)) then
        Some \<lparr>configFile = Some c, rom = Some r, matchType = MatchTypeAlternate,
              isExisting = False\<rparr>
      else if list_ex (\<lambda>romAlternateName.
                  list_ex (\<lambda>configAlternateName. configAlternateName = romAlternateName)
                    (AlternateNames (snd c)))
                (AlternateNames (snd r)) then
        Some \<lparr>configFile = Some c, rom = Some r, matchType = MatchTypeFuzzy,
              isExisting = False\<rparr>
      else None)"

text \<open>The label \<open>matchLoop\<close> is on the loop over the ROMs: after a match the next ROM is tried.\<close>

fun matchLoop :: "RomPtr \<Rightarrow> RomPtr list \<Rightarrow> match list \<Rightarrow> match list" where
  "matchLoop c [] matches = matches"
| "matchLoop c (r # romSet) matches =
     matchLoop c romSet
       (case matchPair c r of None \<Rightarrow> matches | Some m \<Rightarrow> matches @ [m])"

definition romSetLoop :: "RomPtr list \<Rightarrow> match list \<Rightarrow> match list" where
  "romSetLoop romSet matches =
     foldl (\<lambda>ms r.
              if list_ex (\<lambda>m. samePtr (rom m) r \<and> matchType m \<noteq> MatchTypeNone) ms then ms
              else ms @ [\<lparr>configFile = None, rom = Some r, matchType = MatchTypeNone,
                          isExisting = False\<rparr>])
           matches romSet"

definition configSetLoop :: "RomPtr list \<Rightarrow> match list \<Rightarrow> match list" where
  "configSetLoop configFiles matches =
     foldl (\<lambda>ms c.
              if list_ex (\<lambda>m. samePtr (configFile m) c \<and> matchType m \<noteq> MatchTypeNone) ms then ms
              else ms @ [\<lparr>configFile = Some c, rom = None, matchType = MatchTypeNone,
                          isExisting = False\<rparr>])
           matches configFiles"

definition matchRomSets :: "RomPtr list \<Rightarrow> RomPtr list \<Rightarrow> match list" where
  "matchRomSets configFiles romSet =
     configSetLoop configFiles
       (romSetLoop romSet
         (foldl (\<lambda>matches c. matchLoop c romSet matches) [] configFiles))"

fun shouldInclude :: "matchType \<Rightarrow> matchType \<Rightarrow> bool" where
  "shouldInclude MatchTypeNone matchFlag = False"
| "shouldInclude t MatchTypeExact = (t = MatchTypeExact)"
| "shouldInclude t MatchTypeAlternate = (t = MatchTypeExact \<or> t = MatchTypeAlternate)"
| "shouldInclude t MatchTypeFuzzy = True"
| "shouldInclude t MatchTypeNone = False"

definition skipped :: "matchType \<Rightarrow> matchType \<Rightarrow> string" where
  "skipped t matchFlag = (if \<not> shouldInclude t matchFlag then '' [SKIPPED]'' else [])"

section \<open>The file manager\<close>

text \<open>
  \<open>FileMangerInterface\<close>: the three methods, over a state \<open>'s\<close> of the file system.
  Listing and the existence test read the state; the copy returns its error and the new
  state. A Go \<open>error\<close> is its message.
\<close>

type_synonym error = string

record 's FileManger =
  GetDirectoryContents :: "'s \<Rightarrow> string \<Rightarrow> error + string list"
  CopyFileWithName :: "'s \<Rightarrow> string \<Rightarrow> string \<Rightarrow> string \<Rightarrow> error option \<times> 's"
  FileExists :: "'s \<Rightarrow> string \<Rightarrow> string \<Rightarrow> bool"

text \<open>
  The in-memory file manager of the tests (\<^verbatim>\<open>test/file_manager.go\<close>): a map from the
  path of a directory to the names of its files.
\<close>

type_synonym stubFileManager = "string \<rightharpoonup> string list"

definition inSlice :: "string \<Rightarrow> string list \<Rightarrow> bool" where
  "inSlice s slice = list_ex (\<lambda>item. s = item) slice"

definition stubGetDirectoryContents :: "stubFileManager \<Rightarrow> string \<Rightarrow> error + string list" where
  "stubGetDirectoryContents directories directoryPath =
     (case directories directoryPath of
        None \<Rightarrow> Inl ''directory does not exist''
      | Some contents \<Rightarrow> Inr contents)"

definition stubCopyFileWithName ::
  "stubFileManager \<Rightarrow> string \<Rightarrow> string \<Rightarrow> string \<Rightarrow> error option \<times> stubFileManager" where
  "stubCopyFileWithName directories directoryPath fileName newName =
     (case stubGetDirectoryContents directories directoryPath of
        Inl e \<Rightarrow> (Some e, directories)
      | Inr contents \<Rightarrow>
          if \<not> inSlice fileName contents then (Some ''file does not exist'', directories)
          else (None, directories(directoryPath \<mapsto> contents @ [newName])))"

definition stubFileExists :: "stubFileManager \<Rightarrow> string \<Rightarrow> string \<Rightarrow> bool" where
  "stubFileExists directories directoryPath fileName =
     (case directories directoryPath of
        None \<Rightarrow> False
      | Some files \<Rightarrow> list_ex (\<lambda>f. f = fileName) files)"

definition SetDirectoryContents ::
  "stubFileManager \<Rightarrow> string \<Rightarrow> string list \<Rightarrow> stubFileManager" where
  "SetDirectoryContents directories directoryPath contents =
     directories(directoryPath \<mapsto> contents)"

definition NewStubFileManager :: "stubFileManager FileManger" where
  "NewStubFileManager =
     \<lparr>GetDirectoryContents = stubGetDirectoryContents,
      CopyFileWithName = stubCopyFileWithName,
      FileExists = stubFileExists\<rparr>"

section \<open>PatchDirectory\<close>

record 's Patcher =
  fileManager :: "'s FileManger"
  commit :: bool

definition NewPatcher :: "'s FileManger \<Rightarrow> bool \<Rightarrow> 's Patcher" where
  "NewPatcher fm c = \<lparr>fileManager = fm, commit = c\<rparr>"

text \<open>
  What the loop over the matches leaves behind: the state of the file manager, the copy
  requests issued (directory, source name, new name) in order, and the matches with
  \<open>isExisting\<close> as updated through the pointers. \<open>None\<close> is a nil pointer
  dereference.
\<close>

type_synonym copyRequest = "string \<times> string \<times> string"

fun copyLoop ::
  "'s Patcher \<Rightarrow> string \<Rightarrow> matchType \<Rightarrow> 's \<Rightarrow> match list
     \<Rightarrow> ('s \<times> copyRequest list \<times> match list) option" where
  "copyLoop p configDirPath matchFlag s [] = Some (s, [], [])"
| "copyLoop p configDirPath matchFlag s (m # matches) =
     (if matchType m \<noteq> MatchTypeNone \<and> \<not> isExisting m
           \<and> shouldInclude (matchType m) matchFlag then
        (case rom m of
           None \<Rightarrow> None
         | Some r \<Rightarrow>
             if FileExists (fileManager p) s configDirPath (ConfigName (snd r)) then
               map_option (\<lambda>(s', reqs, ms). (s', reqs, m\<lparr>isExisting := True\<rparr> # ms))
                 (copyLoop p configDirPath matchFlag s matches)
             else if commit p then
               (case configFile m of
                  None \<Rightarrow> None
                | Some c \<Rightarrow>
                    map_option
                      (\<lambda>(s', reqs, ms).
                         (s', (configDirPath, FileName (snd c), ConfigName (snd r)) # reqs, m # ms))
                      (copyLoop p configDirPath matchFlag
                         (snd (CopyFileWithName (fileManager p) s configDirPath
                                 (FileName (snd c)) (ConfigName (snd r))))
                         matches))
             else
               map_option (\<lambda>(s', reqs, ms). (s', reqs, m # ms))
                 (copyLoop p configDirPath matchFlag s matches))
      else
        map_option (\<lambda>(s', reqs, ms). (s', reqs, m # ms))
          (copyLoop p configDirPath matchFlag s matches))"

subsection \<open>The log\<close>

record logLists =
  romsWithoutConfig :: "string list"
  configWithoutRoms :: "string list"
  createdFiles :: "matchType \<Rightarrow> string list"

definition newLine :: string where
  "newLine = [CHR 0x0A]"

definition createdLine :: "Rom \<Rightarrow> Rom \<Rightarrow> string" where
  "createdLine r c =
     FileName r @ '' -> '' @ ConfigName r @ '' copied from: '' @ FileName c"

text \<open>The first loop of \<open>produceLog\<close>; \<open>None\<close> is a nil pointer dereference.\<close>

fun collectLog :: "match list \<Rightarrow> logLists \<Rightarrow> logLists option" where
  "collectLog [] l = Some l"
| "collectLog (m # matches) l =
     (if matchType m = MatchTypeNone then
        (case configFile m of
           Some c \<Rightarrow>
             collectLog matches (l\<lparr>configWithoutRoms := configWithoutRoms l @ [FileName (snd c)]\<rparr>)
         | None \<Rightarrow>
             (case rom m of
                None \<Rightarrow> None
              | Some r \<Rightarrow>
                  collectLog matches
                    (l\<lparr>romsWithoutConfig := romsWithoutConfig l @ [FileName (snd r)]\<rparr>)))
      else if isExisting m then collectLog matches l
      else
        (case rom m of
           None \<Rightarrow> None
         | Some r \<Rightarrow>
             (case configFile m of
                None \<Rightarrow> None
              | Some c \<Rightarrow>
                  if ToLower (ConfigName (snd r)) \<noteq> ToLower (FileName (snd c)) then
                    collectLog matches
                      (l\<lparr>createdFiles := (createdFiles l)
                           (matchType m := createdFiles l (matchType m) @ [createdLine (snd r) (snd c)])\<rparr>)
                  else collectLog matches l)))"

definition sortAlphabetical :: "string list \<Rightarrow> string list" where
  "sortAlphabetical s = sort s"

definition logSection :: "string \<Rightarrow> string list \<Rightarrow> string" where
  "logSection title lines =
     (if length lines > 0 then
        title @ newLine @ Join (sortAlphabetical lines) newLine @ newLine @ newLine
      else [])"

definition skippedFileCount :: "logLists \<Rightarrow> matchType \<Rightarrow> nat" where
  "skippedFileCount l matchFlag =
     (if \<not> shouldInclude MatchTypeExact matchFlag
        then length (createdFiles l MatchTypeExact) else 0)
     + (if \<not> shouldInclude MatchTypeAlternate matchFlag
        then length (createdFiles l MatchTypeAlternate) else 0)
     + (if \<not> shouldInclude MatchTypeFuzzy matchFlag
        then length (createdFiles l MatchTypeFuzzy) else 0)"

definition totalFileCount :: "logLists \<Rightarrow> nat" where
  "totalFileCount l =
     length (createdFiles l MatchTypeExact) + length (createdFiles l MatchTypeAlternate)
     + length (createdFiles l MatchTypeFuzzy)"

text \<open>The text of the log, from the three lists.\<close>

definition logText ::
  "bool \<Rightarrow> nat \<Rightarrow> nat \<Rightarrow> string \<Rightarrow> string \<Rightarrow> logLists \<Rightarrow> matchType \<Rightarrow> string" where
  "logText committing romCount configCount romDirPath configPath l matchFlag =
     (if \<not> committing then ''[DRY]'' @ newLine @ newLine else [])
     @ ''Found '' @ showInt (int configCount) @ '' config files in: '' @ configPath @ newLine
     @ ''Found '' @ showInt (int romCount) @ '' roms in: '' @ romDirPath @ newLine @ newLine
     @ ''Missing ROMs: '' @ showInt (int (length (configWithoutRoms l))) @ newLine
     @ ''Missing config: '' @ showInt (int (length (romsWithoutConfig l))) @ newLine @ newLine
     @ ''Created '' @ showInt (int (totalFileCount l) - int (skippedFileCount l matchFlag))
     @ '' new files'' @ newLine
     @ ''Skipped '' @ showInt (int (skippedFileCount l matchFlag)) @ '' new files''
     @ newLine @ newLine
     @ logSection ''CONFIG WITH MISSING ROMS'' (configWithoutRoms l)
     @ logSection ''ROMS WITH MISSING CONFIG'' (romsWithoutConfig l)
     @ logSection (''NEW FILES (EXACT MATCHES)'' @ skipped MatchTypeExact matchFlag)
         (createdFiles l MatchTypeExact)
     @ logSection (''NEW FILES (GOOD MATCHES)'' @ skipped MatchTypeAlternate matchFlag)
         (createdFiles l MatchTypeAlternate)
     @ logSection (''NEW FILES (FUZZY MATCHES)'' @ skipped MatchTypeFuzzy matchFlag)
         (createdFiles l MatchTypeFuzzy)"

text \<open>
  A call of \<open>os.WriteFile\<close>: the directory and the file name that are joined into the path,
  and the data. \<open>writeLogToFile\<close> names the file after the Unix time \<open>now\<close>.
\<close>

type_synonym fileWrite = "string \<times> string \<times> string"

definition writeLogToFile :: "int \<Rightarrow> string \<Rightarrow> string \<Rightarrow> fileWrite" where
  "writeLogToFile now configDirPath log =
     (configDirPath, ''patch-log.'' @ showInt now @ ''.log'', log)"

definition emptyLogLists :: logLists where
  "emptyLogLists = \<lparr>romsWithoutConfig = [], configWithoutRoms = [], createdFiles = (\<lambda>t. [])\<rparr>"

definition produceLog ::
  "'s Patcher \<Rightarrow> int \<Rightarrow> nat \<Rightarrow> nat \<Rightarrow> string \<Rightarrow> string \<Rightarrow> match list \<Rightarrow> matchType
     \<Rightarrow> fileWrite option" where
  "produceLog p now romCount configCount romDirPath configPath matches matchFlag =
     (case collectLog matches emptyLogLists of
        None \<Rightarrow> None
      | Some l \<Rightarrow>
          Some (writeLogToFile now configPath
                  (logText (commit p) romCount configCount romDirPath configPath l matchFlag)))"

text \<open>
  The identities of a listing: one new \<open>Rom\<close> per entry, at consecutive addresses from
  \<open>base\<close>.
\<close>

definition newRoms :: "nat \<Rightarrow> string list \<Rightarrow> RomPtr list" where
  "newRoms base names = zip [base ..< base + length names] (map NewRom names)"

definition filterConfigFiles :: "string list \<Rightarrow> string list" where
  "filterConfigFiles configDirFiles = filter (\<lambda>file. Ext file = ''.cfg'') configDirFiles"

text \<open>
  The outcome of a call: the returned error, the state of the file manager, the copy
  requests issued to it, the files written through \<open>os.WriteFile\<close>, and the match
  records as they stand when the call returns.
\<close>

record 's outcome =
  err :: "error option"
  state :: 's
  copies :: "copyRequest list"
  written :: "fileWrite list"
  finalMatches :: "match list"

definition PatchDirectory ::
  "'s Patcher \<Rightarrow> int \<Rightarrow> 's \<Rightarrow> string \<Rightarrow> string \<Rightarrow> matchType \<Rightarrow> 's outcome option" where
  "PatchDirectory p now s configDirPath romDirPath matchFlag =
     (case GetDirectoryContents (fileManager p) s configDirPath of
        Inl e \<Rightarrow> Some \<lparr>err = Some e, state = s, copies = [], written = [], finalMatches = []\<rparr>
      | Inr configDirFiles \<Rightarrow>
          (case GetDirectoryContents (fileManager p) s romDirPath of
             Inl e \<Rightarrow> Some \<lparr>err = Some e, state = s, copies = [], written = [], finalMatches = []\<rparr>
           | Inr romDirFiles \<Rightarrow>
               (let configFiles = newRoms 0 (filterConfigFiles configDirFiles);
                    roms = newRoms (length configFiles) romDirFiles;
                    matches = matchRomSets configFiles roms
                in case copyLoop p configDirPath matchFlag s matches of
                     None \<Rightarrow> None
                   | Some (s', reqs, matches') \<Rightarrow>
                       (case produceLog p now (length roms) (length configFiles)
                               romDirPath configDirPath matches' matchFlag of
                          None \<Rightarrow> None
                        | Some w \<Rightarrow>
                            Some \<lparr>err = None, state = s', copies = reqs, written = [w],
                                  finalMatches = matches'\<rparr>))))"

section \<open>The command line (main.go)\<close>

text \<open>The match flag chosen from \<open>--exact-only\<close> and \<open>--fuzzy\<close>, once both are not set together.\<close>

definition selectMatchFlag :: "bool \<Rightarrow> bool \<Rightarrow> matchType" where
  "selectMatchFlag exactOnly fuzzyMatching =
     (if exactOnly then MatchTypeExact
      else if fuzzyMatching then MatchTypeFuzzy
      else MatchTypeAlternate)"

section \<open>Notions used in the statements and proofs\<close>

definition noneRom :: "RomPtr \<Rightarrow> match" where
  "noneRom r = \<lparr>configFile = None, rom = Some r, matchType = MatchTypeNone, isExisting = False\<rparr>"

definition noneConfig :: "RomPtr \<Rightarrow> match" where
  "noneConfig c = \<lparr>configFile = Some c, rom = None, matchType = MatchTypeNone, isExisting = False\<rparr>"

definition pairMatches :: "RomPtr list \<Rightarrow> RomPtr list \<Rightarrow> match list" where
  "pairMatches cs rs = concat (map (\<lambda>c. List.map_filter (matchPair c) rs) cs)"

definition unmatchedRoms :: "RomPtr list \<Rightarrow> RomPtr list \<Rightarrow> RomPtr list" where
  "unmatchedRoms cs rs =
     filter (\<lambda>r. \<not> list_ex (\<lambda>m. samePtr (rom m) r) (pairMatches cs rs)) rs"

definition unmatchedConfigs :: "RomPtr list \<Rightarrow> RomPtr list \<Rightarrow> RomPtr list" where
  "unmatchedConfigs cs rs =
     filter (\<lambda>c. \<not> list_ex (\<lambda>m. samePtr (configFile m) c) (pairMatches cs rs)) cs"

definition wfMatch :: "match \<Rightarrow> bool" where
  "wfMatch m =
     (if matchType m = MatchTypeNone then configFile m \<noteq> None \<or> rom m \<noteq> None
      else configFile m \<noteq> None \<and> rom m \<noteq> None)"

text \<open>What the copy loop may do to a match record: nothing, or mark it existing.\<close>

definition marked :: "match \<Rightarrow> match \<Rightarrow> bool" where
  "marked m m' = (m' = m \<or> (matchType m \<noteq> MatchTypeNone \<and> m' = m\<lparr>isExisting := True\<rparr>))"

text \<open>The names the first loop of the log adds to the two lists of unmatched files.\<close>

definition unmatchedRomName :: "match \<Rightarrow> string option" where
  "unmatchedRomName m =
     (if matchType m = MatchTypeNone \<and> configFile m = None
      then map_option (\<lambda>r. FileName (snd r)) (rom m) else None)"

definition unmatchedConfigName :: "match \<Rightarrow> string option" where
  "unmatchedConfigName m =
     (if matchType m = MatchTypeNone
      then map_option (\<lambda>c. FileName (snd c)) (configFile m) else None)"

text \<open>
  The set-up of the tests: a new in-memory file manager with the contents of the
  configuration directory \<open>config\<close> and of the ROM directory \<open>roms\<close> set.
\<close>

definition stubWith :: "string list \<Rightarrow> string list \<Rightarrow> stubFileManager" where
  "stubWith bezelDirContents romDirContents =
     SetDirectoryContents (SetDirectoryContents Map.empty ''roms'' romDirContents)
       ''config'' bezelDirContents"

text \<open>The tier of the first rule that fires for a pair, as the cascade of \<open>matchPair\<close> orders them.\<close>

definition firstRule :: "Rom \<Rightarrow> Rom \<Rightarrow> matchType" where
  "firstRule c r =
     (if Name c = Name r then MatchTypeExact
      else if Name c \<in> set (AlternateNames r) then MatchTypeAlternate
      else if set (AlternateNames c) \<inter> set (AlternateNames r) \<noteq> {} then MatchTypeFuzzy
      else MatchTypeNone)"

text \<open>
  A match on which the copy loop acts: positive, not marked existing, of a tier the match
  flag includes. Its target is the configuration name of its ROM.
\<close>

definition eligible :: "matchType \<Rightarrow> match \<Rightarrow> bool" where
  "eligible matchFlag m =
     (matchType m \<noteq> MatchTypeNone \<and> \<not> isExisting m \<and> shouldInclude (matchType m) matchFlag)"

definition targetName :: "match \<Rightarrow> string" where
  "targetName m = (case rom m of None \<Rightarrow> [] | Some r \<Rightarrow> ConfigName (snd r))"

definition pendingTargets :: "matchType \<Rightarrow> match list \<Rightarrow> string list" where
  "pendingTargets matchFlag ms = map targetName (filter (eligible matchFlag) ms)"

text \<open>A copy changes the answer of \<open>FileExists\<close> for the new name only.\<close>

definition copyFrame :: "'s FileManger \<Rightarrow> bool" where
  "copyFrame fm =
     (\<forall>s d src dst name. name \<noteq> dst \<longrightarrow>
        FileExists fm (snd (CopyFileWithName fm s d src dst)) d name = FileExists fm s d name)"

text \<open>The apostrophe variant that \<open>getAlternateNames\<close> appends.\<close>

definition withoutApostrophes :: "string \<Rightarrow> string list" where
  "withoutApostrophes name =
     (if Index name [CHR 0x27] \<ge> 0 then [RemoveAll name (CHR 0x27)] else [])"

text \<open>Copies never make the file \<open>name\<close> of directory \<open>d\<close> disappear.\<close>

definition copyKeeps :: "'s FileManger \<Rightarrow> string \<Rightarrow> string \<Rightarrow> bool" where
  "copyKeeps fm d name =
     (\<forall>s src dst. FileExists fm s d name \<longrightarrow>
        FileExists fm (snd (CopyFileWithName fm s d src dst)) d name)"


section \<open>Properties of the library functions\<close>

lemma lowerChar_idem: "lowerChar (lowerChar c) = lowerChar c"
  by (simp add: lowerChar_def)

lemma ToLower_idem: "ToLower (ToLower s) = ToLower s"
  by (simp add: ToLower_def lowerChar_idem)

lemma containsItem_iff: "containsItem xs x \<longleftrightarrow> x \<in> set xs"
  by (induction xs) auto

lemma set_uniqueItems_from:
  "set (foldl (\<lambda>uniqueSlice item.
                 if \<not> containsItem uniqueSlice item then uniqueSlice @ [item] else uniqueSlice)
              acc xs)
   = set acc \<union> set xs"
  by (induction xs arbitrary: acc) (auto simp: containsItem_iff)

lemma set_uniqueItems: "set (uniqueItems xs) = set xs"
  by (simp add: uniqueItems_def set_uniqueItems_from)

lemma getBaseName_lower: "ToLower (getBaseName f) = getBaseName f"
  by (simp add: getBaseName_def ToLower_idem)

lemma name_in_getAlternateNames: "ToLower n \<in> set (getAlternateNames n b)"
  by (subst getAlternateNames.simps) (simp add: Let_def set_uniqueItems)

section \<open>Properties of the matcher and of the loops\<close>

lemma matchLoop_eq: "matchLoop c rs acc = acc @ List.map_filter (matchPair c) rs"
  by (induction rs arbitrary: acc) (auto simp: List.map_filter_simps split: option.splits)

lemma matchLoops_eq:
  "foldl (\<lambda>matches c. matchLoop c rs matches) acc cs = acc @ pairMatches cs rs"
  by (induction cs arbitrary: acc) (auto simp: pairMatches_def matchLoop_eq)

lemma matchPair_positive: "matchPair c r = Some m \<Longrightarrow> matchType m \<noteq> MatchTypeNone"
  by (auto simp: matchPair_def split: if_splits)

lemma matchPair_sides: "matchPair c r = Some m \<Longrightarrow> configFile m = Some c \<and> rom m = Some r"
  by (auto simp: matchPair_def split: if_splits)

lemma in_map_filter: "y \<in> set (List.map_filter f xs) \<longleftrightarrow> (\<exists>x\<in>set xs. f x = Some y)"
  by (induction xs) (auto simp: List.map_filter_simps split: option.splits)

lemma pairMatches_iff:
  "m \<in> set (pairMatches cs rs) \<longleftrightarrow> (\<exists>c\<in>set cs. \<exists>r\<in>set rs. matchPair c r = Some m)"
  by (simp add: pairMatches_def in_map_filter)

lemma romSetLoop_from:
  "list_all (\<lambda>m. matchType m = MatchTypeNone) ns \<Longrightarrow>
   foldl (\<lambda>ms r.
              if list_ex (\<lambda>m. samePtr (rom m) r \<and> matchType m \<noteq> MatchTypeNone) ms then ms
              else ms @ [\<lparr>configFile = None, rom = Some r, matchType = MatchTypeNone,
                          isExisting = False\<rparr>])
           (ms @ ns) rs
   = ms @ ns @ map noneRom
       (filter (\<lambda>r. \<not> list_ex (\<lambda>m. samePtr (rom m) r \<and> matchType m \<noteq> MatchTypeNone) ms) rs)"
proof (induction rs arbitrary: ns)
  case Nil
  then show ?case by simp
next
  case (Cons r rs)
  have ex: "list_ex (\<lambda>m. samePtr (rom m) r \<and> matchType m \<noteq> MatchTypeNone) (ms @ ns)
        = list_ex (\<lambda>m. samePtr (rom m) r \<and> matchType m \<noteq> MatchTypeNone) ms"
    using Cons.prems by (auto simp: list_ex_iff list_all_iff)
  show ?case
  proof (cases "list_ex (\<lambda>m. samePtr (rom m) r \<and> matchType m \<noteq> MatchTypeNone) ms")
    case True
    then show ?thesis using Cons.IH [OF Cons.prems] ex by simp
  next
    case False
    have "list_all (\<lambda>m. matchType m = MatchTypeNone) (ns @ [noneRom r])"
      using Cons.prems by (simp add: noneRom_def)
    from Cons.IH [OF this] False ex show ?thesis by (simp add: noneRom_def)
  qed
qed

lemma romSetLoop_eq:
  "romSetLoop rs ms = ms @ map noneRom
       (filter (\<lambda>r. \<not> list_ex (\<lambda>m. samePtr (rom m) r \<and> matchType m \<noteq> MatchTypeNone) ms) rs)"
  using romSetLoop_from [of "[]" ms rs] by (simp add: romSetLoop_def)

lemma configSetLoop_from:
  "list_all (\<lambda>m. matchType m = MatchTypeNone) ns \<Longrightarrow>
   foldl (\<lambda>ms c.
              if list_ex (\<lambda>m. samePtr (configFile m) c \<and> matchType m \<noteq> MatchTypeNone) ms then ms
              else ms @ [\<lparr>configFile = Some c, rom = None, matchType = MatchTypeNone,
                          isExisting = False\<rparr>])
           (ms @ ns) cs
   = ms @ ns @ map noneConfig
       (filter (\<lambda>c. \<not> list_ex (\<lambda>m. samePtr (configFile m) c \<and> matchType m \<noteq> MatchTypeNone) ms) cs)"
proof (induction cs arbitrary: ns)
  case Nil
  then show ?case by simp
next
  case (Cons c cs)
  have ex: "list_ex (\<lambda>m. samePtr (configFile m) c \<and> matchType m \<noteq> MatchTypeNone) (ms @ ns)
        = list_ex (\<lambda>m. samePtr (configFile m) c \<and> matchType m \<noteq> MatchTypeNone) ms"
    using Cons.prems by (auto simp: list_ex_iff list_all_iff)
  show ?case
  proof (cases "list_ex (\<lambda>m. samePtr (configFile m) c \<and> matchType m \<noteq> MatchTypeNone) ms")
    case True
    then show ?thesis using Cons.IH [OF Cons.prems] ex by simp
  next
    case False
    have "list_all (\<lambda>m. matchType m = MatchTypeNone) (ns @ [noneConfig c])"
      using Cons.prems by (simp add: noneConfig_def)
    from Cons.IH [OF this] False ex show ?thesis by (simp add: noneConfig_def)
  qed
qed

lemma pairMatches_positive: "m \<in> set (pairMatches cs rs) \<Longrightarrow> matchType m \<noteq> MatchTypeNone"
  by (auto simp: pairMatches_iff matchPair_positive)

lemma matchRomSets_eq:
  "matchRomSets cs rs
   = pairMatches cs rs @ map noneRom (unmatchedRoms cs rs) @ map noneConfig (unmatchedConfigs cs rs)"
proof -
  let ?P = "pairMatches cs rs"
  have pos: "\<And>m. m \<in> set ?P \<Longrightarrow> matchType m \<noteq> MatchTypeNone"
    by (rule pairMatches_positive)
  have r: "(\<lambda>r. \<not> list_ex (\<lambda>m. samePtr (rom m) r \<and> matchType m \<noteq> MatchTypeNone) ?P)
         = (\<lambda>r. \<not> list_ex (\<lambda>m. samePtr (rom m) r) ?P)"
    using pos by (auto simp: list_ex_iff)
  have c: "(\<lambda>c. \<not> list_ex (\<lambda>m. samePtr (configFile m) c \<and> matchType m \<noteq> MatchTypeNone) ?P)
         = (\<lambda>c. \<not> list_ex (\<lambda>m. samePtr (configFile m) c) ?P)"
    using pos by (auto simp: list_ex_iff)
  have "list_all (\<lambda>m. matchType m = MatchTypeNone) (map noneRom (unmatchedRoms cs rs))"
    by (simp add: list_all_iff noneRom_def)
  from configSetLoop_from [OF this, of ?P cs]
  show ?thesis
    by (simp add: matchRomSets_def matchLoops_eq romSetLoop_eq configSetLoop_def r c
        unmatchedRoms_def unmatchedConfigs_def)
qed

lemma pairMatches_wf: "m \<in> set (pairMatches cs rs) \<Longrightarrow> wfMatch m"
proof -
  assume "m \<in> set (pairMatches cs rs)"
  then obtain c r where "matchPair c r = Some m" by (auto simp: pairMatches_iff)
  from matchPair_sides [OF this] show ?thesis by (simp add: wfMatch_def)
qed

lemma matchRomSets_wf: "list_all wfMatch (matchRomSets cs rs)"
  unfolding matchRomSets_eq list_all_iff
  by (auto simp: pairMatches_wf) (simp_all add: wfMatch_def noneRom_def noneConfig_def)

lemma copyLoop_total:
  "list_all wfMatch ms \<Longrightarrow> \<exists>res. copyLoop p d flag s ms = Some res"
proof (induction ms arbitrary: s)
  case Nil
  then show ?case by simp
next
  case (Cons m ms)
  then have wf: "wfMatch m" and rest: "list_all wfMatch ms" by simp_all
  from Cons.IH [OF rest] have ih: "\<And>s. \<exists>res. copyLoop p d flag s ms = Some res" .
  show ?case
  proof (cases "matchType m \<noteq> MatchTypeNone \<and> \<not> isExisting m \<and> shouldInclude (matchType m) flag")
    case False
    with ih [of s] show ?thesis by auto
  next
    case True
    with wf obtain c r where c: "configFile m = Some c" and r: "rom m = Some r"
      by (auto simp: wfMatch_def)
    let ?s' = "snd (CopyFileWithName (fileManager p) s d (FileName (snd c)) (ConfigName (snd r)))"
    from ih [of s] ih [of ?s'] True c r show ?thesis by auto
  qed
qed

lemma copyLoop_marked:
  "copyLoop p d flag s ms = Some (s', reqs, ms') \<Longrightarrow> list_all2 marked ms ms'"
proof (induction ms arbitrary: s s' reqs ms')
  case Nil
  then show ?case by simp
next
  case (Cons m ms)
  then show ?case
    by (auto simp: marked_def split: if_splits option.splits)
qed

lemma copyLoop_dry:
  "\<not> commit p \<Longrightarrow> copyLoop p d flag s ms = Some (s', reqs, ms') \<Longrightarrow> s' = s \<and> reqs = []"
proof (induction ms arbitrary: s' reqs ms')
  case Nil
  then show ?case by simp
next
  case (Cons m ms)
  then show ?case
    by (auto split: if_splits option.splits)
qed

lemma marked_wf: "marked m m' \<Longrightarrow> wfMatch m \<Longrightarrow> wfMatch m'"
  by (auto simp: marked_def wfMatch_def)

lemma marked_wf_all: "list_all2 marked ms ms' \<Longrightarrow> list_all wfMatch ms \<Longrightarrow> list_all wfMatch ms'"
  by (induction rule: list_all2_induct) (auto intro: marked_wf)

lemma collectLog_total: "list_all wfMatch ms \<Longrightarrow> \<exists>l'. collectLog ms l = Some l'"
proof (induction ms arbitrary: l)
  case Nil
  then show ?case by simp
next
  case (Cons m ms)
  then have wf: "wfMatch m" and ih: "\<And>l. \<exists>l'. collectLog ms l = Some l'" by simp_all
  show ?case
  proof (cases "matchType m = MatchTypeNone")
    case True
    with wf ih show ?thesis by (cases "configFile m"; cases "rom m") (auto simp: wfMatch_def)
  next
    case False
    with wf obtain c r where "configFile m = Some c" "rom m = Some r"
      by (auto simp: wfMatch_def)
    with False ih show ?thesis by simp
  qed
qed

lemma collectLog_lists:
  "collectLog ms l = Some l' \<Longrightarrow>
     romsWithoutConfig l' = romsWithoutConfig l @ List.map_filter unmatchedRomName ms
   \<and> configWithoutRoms l' = configWithoutRoms l @ List.map_filter unmatchedConfigName ms"
proof (induction ms arbitrary: l)
  case Nil
  then show ?case by (simp add: List.map_filter_simps)
next
  case (Cons m ms)
  then show ?case
    by (auto simp: List.map_filter_simps unmatchedRomName_def unmatchedConfigName_def
          split: if_splits option.splits)
qed

lemma PatchDirectory_returns:
  assumes c: "GetDirectoryContents (fileManager p) s configDirPath = Inr configDirFiles"
      and r: "GetDirectoryContents (fileManager p) s romDirPath = Inr romDirFiles"
  obtains s' reqs ms l where
    "copyLoop p configDirPath matchFlag s
       (matchRomSets (newRoms 0 (filterConfigFiles configDirFiles))
          (newRoms (length (filterConfigFiles configDirFiles)) romDirFiles))
     = Some (s', reqs, ms)"
    "collectLog ms emptyLogLists = Some l"
    "PatchDirectory p now s configDirPath romDirPath matchFlag
     = Some \<lparr>err = None, state = s', copies = reqs,
             written = [writeLogToFile now configDirPath
                (logText (commit p) (length romDirFiles) (length (filterConfigFiles configDirFiles))
                   romDirPath configDirPath l matchFlag)],
             finalMatches = ms\<rparr>"
proof -
  let ?cs = "newRoms 0 (filterConfigFiles configDirFiles)"
  let ?rs = "newRoms (length (filterConfigFiles configDirFiles)) romDirFiles"
  have len: "length ?cs = length (filterConfigFiles configDirFiles)" "length ?rs = length romDirFiles"
    by (simp_all add: newRoms_def)
  have "\<exists>res. copyLoop p configDirPath matchFlag s (matchRomSets ?cs ?rs) = Some res"
    by (rule copyLoop_total [OF matchRomSets_wf])
  then obtain res where "copyLoop p configDirPath matchFlag s (matchRomSets ?cs ?rs) = Some res" ..
  then obtain s' reqs ms where
    loop: "copyLoop p configDirPath matchFlag s (matchRomSets ?cs ?rs) = Some (s', reqs, ms)"
    by (cases res) auto
  have "list_all wfMatch ms"
    by (rule marked_wf_all [OF copyLoop_marked [OF loop] matchRomSets_wf])
  then have "\<exists>l. collectLog ms emptyLogLists = Some l" by (rule collectLog_total)
  then obtain l where l: "collectLog ms emptyLogLists = Some l" ..
  have "PatchDirectory p now s configDirPath romDirPath matchFlag
     = Some \<lparr>err = None, state = s', copies = reqs,
             written = [writeLogToFile now configDirPath
                (logText (commit p) (length romDirFiles) (length (filterConfigFiles configDirFiles))
                   romDirPath configDirPath l matchFlag)],
             finalMatches = ms\<rparr>"
    using c r loop l len by (simp add: PatchDirectory_def Let_def produceLog_def)
  with loop l show thesis by (rule that)
qed

lemma FileName_NewRom [simp]: "FileName (NewRom f) = f"
  by (simp add: NewRom_def Let_def)

lemma length_newRoms [simp]: "length (newRoms b ns) = length ns"
  by (simp add: newRoms_def)

lemma nth_newRoms: "i < length ns \<Longrightarrow> newRoms b ns ! i = (b + i, NewRom (ns ! i))"
  by (simp add: newRoms_def)

lemma in_newRoms: "x \<in> set (newRoms b ns) \<Longrightarrow> FileName (snd x) \<in> set ns"
proof -
  assume "x \<in> set (newRoms b ns)"
  then have "(fst x, snd x) \<in> set (zip [b ..< b + length ns] (map NewRom ns))"
    by (simp add: newRoms_def)
  then have "snd x \<in> set (map NewRom ns)" by (rule set_zip_rightD)
  then show ?thesis by auto
qed

lemma map_fst_newRoms: "map fst (newRoms b ns) = [b ..< b + length ns]"
  by (simp add: newRoms_def)

lemma newRoms_same:
  "x \<in> set (newRoms b ns) \<Longrightarrow> y \<in> set (newRoms b ns) \<Longrightarrow> fst x = fst y \<Longrightarrow> x = y"
proof -
  assume x: "x \<in> set (newRoms b ns)" and y: "y \<in> set (newRoms b ns)" and e: "fst x = fst y"
  have "distinct (map fst (newRoms b ns))" by (simp add: map_fst_newRoms)
  then have "inj_on fst (set (newRoms b ns))" by (simp add: distinct_map)
  with x y e show "x = y" by (auto dest: inj_onD)
qed

lemma matchRomSets_config:
  "m \<in> set (matchRomSets cs rs) \<Longrightarrow> configFile m = Some c \<Longrightarrow> c \<in> set cs"
  by (auto simp: matchRomSets_eq pairMatches_iff noneRom_def noneConfig_def unmatchedConfigs_def
        dest: matchPair_sides)

lemma matchRomSets_rom:
  "m \<in> set (matchRomSets cs rs) \<Longrightarrow> rom m = Some r \<Longrightarrow> r \<in> set rs"
  by (auto simp: matchRomSets_eq pairMatches_iff noneRom_def noneConfig_def unmatchedRoms_def
        dest: matchPair_sides)

lemma marked_sides: "marked m m' \<Longrightarrow> configFile m' = configFile m \<and> rom m' = rom m \<and> matchType m' = matchType m"
  by (auto simp: marked_def)

lemma marked_back:
  "list_all2 marked ms ms' \<Longrightarrow> m' \<in> set ms' \<Longrightarrow> \<exists>m\<in>set ms. marked m m'"
  by (induction rule: list_all2_induct) auto

lemma marked_forth:
  "list_all2 marked ms ms' \<Longrightarrow> m \<in> set ms \<Longrightarrow> \<exists>m'\<in>set ms'. marked m m'"
  by (induction rule: list_all2_induct) auto

lemma in_filterConfigFiles: "f \<in> set (filterConfigFiles fs) \<longleftrightarrow> f \<in> set fs \<and> Ext f = ''.cfg''"
  by (auto simp: filterConfigFiles_def)

lemma set_sortAlphabetical: "set (sortAlphabetical xs) = set xs"
  by (simp add: sortAlphabetical_def)

lemma logText_rom_section:
  "\<exists>pre post. logText cm rc cc rd cd l flag
      = pre @ logSection ''ROMS WITH MISSING CONFIG'' (romsWithoutConfig l) @ post"
  unfolding logText_def by (metis append.assoc)

lemma samePtr_Some: "samePtr (Some x) y = (fst x = fst y)"
  by (simp add: samePtr_def)

lemma matchPair_firstRule:
  "matchPair c r = (if firstRule (snd c) (snd r) = MatchTypeNone then None
     else Some \<lparr>configFile = Some c, rom = Some r, matchType = firstRule (snd c) (snd r),
               isExisting = (firstRule (snd c) (snd r) = MatchTypeExact
                  \<and> ToLower (FileName (snd c)) = ToLower (ConfigName (snd r)))\<rparr>)"
  by (auto simp: matchPair_def firstRule_def list_ex_iff)

lemma filter_map_filter_rom:
  "distinct rs \<Longrightarrow>
   filter (\<lambda>m. rom m = Some r) (List.map_filter (matchPair c) rs)
   = (if r \<in> set rs then (case matchPair c r of None \<Rightarrow> [] | Some m \<Rightarrow> [m]) else [])"
proof (induction rs)
  case Nil
  then show ?case by (simp add: List.map_filter_simps)
next
  case (Cons x rs)
  then show ?case
    by (auto simp: List.map_filter_simps dest: matchPair_sides split: option.splits)
qed

lemma filter_map_filter_config:
  "c' \<noteq> c \<Longrightarrow> filter (\<lambda>m. configFile m = Some c \<and> rom m = Some r) (List.map_filter (matchPair c') rs) = []"
proof -
  have "\<not> (configFile m = Some c \<and> rom m = Some r)"
    if "m \<in> set (List.map_filter (matchPair c') rs)" and ne: "c' \<noteq> c" for m
  proof -
    from that(1) obtain x where "matchPair c' x = Some m" by (auto simp: in_map_filter)
    from matchPair_sides [OF this] ne show ?thesis by simp
  qed
  then show "c' \<noteq> c \<Longrightarrow> ?thesis" by (simp add: filter_empty_conv)
qed

lemma filter_pairMatches:
  "distinct cs \<Longrightarrow> distinct rs \<Longrightarrow>
   filter (\<lambda>m. configFile m = Some c \<and> rom m = Some r) (pairMatches cs rs)
   = (if c \<in> set cs \<and> r \<in> set rs then (case matchPair c r of None \<Rightarrow> [] | Some m \<Rightarrow> [m]) else [])"
proof (induction cs)
  case Nil
  then show ?case by (simp add: pairMatches_def)
next
  case (Cons x cs)
  then have ih: "filter (\<lambda>m. configFile m = Some c \<and> rom m = Some r) (pairMatches cs rs)
   = (if c \<in> set cs \<and> r \<in> set rs then (case matchPair c r of None \<Rightarrow> [] | Some m \<Rightarrow> [m]) else [])"
    by simp
  have split: "pairMatches (x # cs) rs = List.map_filter (matchPair x) rs @ pairMatches cs rs"
    by (simp add: pairMatches_def)
  show ?case
  proof (cases "x = c")
    case True
    with Cons.prems have notin: "c \<notin> set cs" by simp
    have "filter (\<lambda>m. configFile m = Some c \<and> rom m = Some r) (List.map_filter (matchPair c) rs)
        = filter (\<lambda>m. rom m = Some r) (List.map_filter (matchPair c) rs)"
      by (rule filter_cong) (auto simp: in_map_filter dest: matchPair_sides)
    with filter_map_filter_rom [OF Cons.prems(2), of r c] ih notin True split
    show ?thesis by simp
  next
    case False
    with filter_map_filter_config [of x c r rs] ih split show ?thesis by auto
  qed
qed

lemma filter_matchRomSets:
  "distinct cs \<Longrightarrow> distinct rs \<Longrightarrow> c \<in> set cs \<Longrightarrow> r \<in> set rs \<Longrightarrow>
   filter (\<lambda>m. configFile m = Some c \<and> rom m = Some r) (matchRomSets cs rs)
   = (case matchPair c r of None \<Rightarrow> [] | Some m \<Rightarrow> [m])"
  by (simp add: matchRomSets_eq filter_pairMatches filter_empty_conv noneRom_def noneConfig_def)

lemma logText_dry:
  "logText False rc cc rd cd l flag = ''[DRY]'' @ newLine @ newLine @ logText True rc cc rd cd l flag"
  by (simp add: logText_def)

lemma copyLoop_dry_total:
  "\<not> commit p \<Longrightarrow> list_all wfMatch ms \<Longrightarrow> \<exists>ms'. copyLoop p d flag s ms = Some (s, [], ms')"
proof -
  assume dry: "\<not> commit p" and wf: "list_all wfMatch ms"
  from copyLoop_total [OF wf, of p d flag s] obtain res where res: "copyLoop p d flag s ms = Some res" by blast
  obtain s' reqs ms' where "res = (s', reqs, ms')" by (cases res) auto
  with res copyLoop_dry [OF dry] show ?thesis by auto
qed

lemma copyLoop_dry_commit:
  assumes fm: "fileManager pd = fileManager pc" and dry: "\<not> commit pd" and com: "commit pc"
      and frame: "copyFrame (fileManager pc)"
  shows "list_all wfMatch ms \<Longrightarrow> distinct (pendingTargets flag ms) \<Longrightarrow>
         (\<forall>t\<in>set (pendingTargets flag ms).
             FileExists (fileManager pc) sc d t = FileExists (fileManager pc) s d t) \<Longrightarrow>
         \<exists>sc' reqs ms'. copyLoop pd d flag s ms = Some (s, [], ms')
                      \<and> copyLoop pc d flag sc ms = Some (sc', reqs, ms')"
proof (induction ms arbitrary: sc)
  case Nil
  then show ?case by simp
next
  case (Cons m ms)
  from Cons.prems(1) have wfm: "wfMatch m" and wfms: "list_all wfMatch ms" by simp_all
  show ?case
  proof (cases "eligible flag m")
    case False
    with Cons.prems have d': "distinct (pendingTargets flag ms)"
      and s': "\<forall>t\<in>set (pendingTargets flag ms).
             FileExists (fileManager pc) sc d t = FileExists (fileManager pc) s d t"
      by (simp_all add: pendingTargets_def)
    from Cons.IH [OF wfms d' s'] False show ?thesis
      by (auto simp: eligible_def)
  next
    case True
    with wfm obtain c r where c: "configFile m = Some c" and r: "rom m = Some r"
      by (auto simp: wfMatch_def eligible_def)
    have tn: "targetName m = ConfigName (snd r)" by (simp add: targetName_def r)
    from True Cons.prems(2) have notin: "ConfigName (snd r) \<notin> set (pendingTargets flag ms)"
      and d': "distinct (pendingTargets flag ms)"
      by (simp_all add: pendingTargets_def tn)
    from True Cons.prems(3) have same: "FileExists (fileManager pc) sc d (ConfigName (snd r))
        = FileExists (fileManager pc) s d (ConfigName (snd r))"
      and s': "\<forall>t\<in>set (pendingTargets flag ms).
             FileExists (fileManager pc) sc d t = FileExists (fileManager pc) s d t"
      by (simp_all add: pendingTargets_def tn)
    show ?thesis
    proof (cases "FileExists (fileManager pc) s d (ConfigName (snd r))")
      case ex: True
      from Cons.IH [OF wfms d' s'] True ex same c r fm show ?thesis
        by (auto simp: eligible_def)
    next
      case nex: False
      let ?sc = "snd (CopyFileWithName (fileManager pc) sc d (FileName (snd c)) (ConfigName (snd r)))"
      have "\<forall>t\<in>set (pendingTargets flag ms).
             FileExists (fileManager pc) ?sc d t = FileExists (fileManager pc) s d t"
      proof
        fix t assume t: "t \<in> set (pendingTargets flag ms)"
        with notin have "t \<noteq> ConfigName (snd r)" by auto
        with frame have "FileExists (fileManager pc) ?sc d t = FileExists (fileManager pc) sc d t"
          by (simp add: copyFrame_def)
        with s' t show "FileExists (fileManager pc) ?sc d t = FileExists (fileManager pc) s d t"
          by simp
      qed
      from Cons.IH [OF wfms d' this] True nex same c r fm dry com show ?thesis
        by (auto simp: eligible_def)
    qed
  qed
qed

lemma copyLoop_tiers:
  "copyLoop p d flag s ms = Some (s', reqs, ms') \<Longrightarrow>
   map (\<lambda>m. (configFile m, rom m, matchType m)) ms' = map (\<lambda>m. (configFile m, rom m, matchType m)) ms"
proof -
  assume "copyLoop p d flag s ms = Some (s', reqs, ms')"
  from copyLoop_marked [OF this] show ?thesis
    by (induction rule: list_all2_induct) (auto dest: marked_sides)
qed


lemma stub_copyFrame: "copyFrame NewStubFileManager"
  by (auto simp: copyFrame_def NewStubFileManager_def stubCopyFileWithName_def stubFileExists_def
        stubGetDirectoryContents_def split: option.splits)

lemma PatchDirectory_config_error:
  "GetDirectoryContents (fileManager p) s cd = Inl e \<Longrightarrow>
   PatchDirectory p now s cd rd flag
   = Some \<lparr>err = Some e, state = s, copies = [], written = [], finalMatches = []\<rparr>"
  by (simp add: PatchDirectory_def)

lemma PatchDirectory_rom_error:
  "GetDirectoryContents (fileManager p) s cd = Inr fs \<Longrightarrow>
   GetDirectoryContents (fileManager p) s rd = Inl e \<Longrightarrow>
   PatchDirectory p now s cd rd flag
   = Some \<lparr>err = Some e, state = s, copies = [], written = [], finalMatches = []\<rparr>"
  by (simp add: PatchDirectory_def)

section \<open>Properties of the normalizer\<close>

lemma HasPrefix_char: "HasPrefix (x # s) [c] \<longleftrightarrow> x = c"
  by (simp add: HasPrefix_def)

lemma Index_char:
  "Index s [c] = (if c \<in> set s then int (length (takeWhile (\<lambda>x. x \<noteq> c) s)) else -1)"
  by (induction s) (auto simp: HasPrefix_char Let_def)

lemma cutAt_char:
  "cutAt (x # s) [c] = x # (if x = c then s else takeWhile (\<lambda>y. y \<noteq> c) s)"
proof (cases "c \<in> set (x # s)")
  case False
  then have "takeWhile (\<lambda>y. y \<noteq> c) s = s" by (auto simp: takeWhile_eq_all_conv)
  with False show ?thesis by (simp add: cutAt_def Index_char del: takeWhile_eq_all_conv)
next
  case True
  show ?thesis
  proof (cases "x = c")
    case True
    then show ?thesis by (simp add: cutAt_def Index_char)
  next
    case False
    have "take (length (takeWhile (\<lambda>y. y \<noteq> c) s)) s = takeWhile (\<lambda>y. y \<noteq> c) s"
      by (simp add: takeWhile_eq_take [symmetric])
    moreover have "nat (1 + int (length (takeWhile (\<lambda>y. y \<noteq> c) s)))
        = Suc (length (takeWhile (\<lambda>y. y \<noteq> c) s))"
      by simp
    ultimately show ?thesis using False True by (simp add: cutAt_def Index_char)
  qed
qed

lemma cut3_Cons:
  "foldl cutAt (x # xs) [''.'', ''['', ''(''] = x # takeWhile (\<lambda>c. c \<notin> set ''.[('' - {x}) xs"
  by (auto simp: cutAt_char takeWhile_takeWhile intro!: takeWhile_cong)

lemma getBaseName_Nil: "getBaseName [] = []"
  by (simp add: getBaseName_def cutAt_def TrimSpace_def ToLower_def)

lemma HasPrefix_nth: "HasPrefix s p \<Longrightarrow> i < length p \<Longrightarrow> s ! i = p ! i"
proof -
  assume hp: "HasPrefix s p" and i: "i < length p"
  then have "take (length p) s ! i = p ! i" by (simp add: HasPrefix_def)
  with i show ?thesis by simp
qed

lemma HasPrefix_append: "length p \<le> length a \<Longrightarrow> HasPrefix (a @ b) p = HasPrefix a p"
  by (simp add: HasPrefix_def)

lemma HasPrefix_self: "HasPrefix (p @ b) p"
  by (simp add: HasPrefix_def)

lemma Index_Cons_nonneg: "0 \<le> Index s pat \<Longrightarrow> 0 \<le> Index (x # s) pat"
  by (simp add: Let_def)

lemma Index_HasPrefix: "HasPrefix s pat \<Longrightarrow> Index s pat = 0"
  by (cases s) (auto simp: HasPrefix_def)

lemma Index_found:
  "0 \<le> Index s pat \<Longrightarrow>
   nat (Index s pat) \<le> length s \<and> HasPrefix (drop (nat (Index s pat)) s) pat"
proof (induction s)
  case Nil
  then show ?case by (simp add: HasPrefix_def split: if_splits)
next
  case (Cons x s)
  show ?case
  proof (cases "HasPrefix (x # s) pat")
    case True
    then show ?thesis by simp
  next
    case False
    with Cons.prems have nn: "0 \<le> Index s pat" and eq: "Index (x # s) pat = Index s pat + 1"
      by (auto simp: Let_def split: if_splits)
    from nn have "nat (Index s pat + 1) = Suc (nat (Index s pat))" by simp
    with Cons.IH [OF nn] eq show ?thesis by simp
  qed
qed

text \<open>The pattern \<open>, the\<close> does not overlap itself.\<close>

lemma comma_the_nth: "0 < k \<Longrightarrow> k < 5 \<Longrightarrow> '', the'' ! k \<noteq> CHR '',''"
  by (simp add: nth_Cons' )

lemma the_nth: "k < 4 \<Longrightarrow> ''the '' ! k \<noteq> CHR '',''"
  by (simp add: nth_Cons')

lemma no_early_comma_the:
  assumes a: "a \<noteq> []" and nc: "\<not> HasPrefix (a @ b) '', the''"
  shows "\<not> HasPrefix (a @ '', the'' @ b) '', the''"
proof
  assume hp: "HasPrefix (a @ '', the'' @ b) '', the''"
  show False
  proof (cases "5 \<le> length a")
    case True
    with hp have "HasPrefix a '', the''" by (simp add: HasPrefix_append)
    with True have "HasPrefix (a @ b) '', the''" by (simp add: HasPrefix_append)
    with nc show False by simp
  next
    case False
    then have k: "length a < 5" by simp
    from a have pos: "0 < length a" by simp
    from HasPrefix_nth [OF hp, of "length a"] k
    have "(a @ '', the'' @ b) ! length a = '', the'' ! length a" by simp
    then have "'', the'' ! length a = CHR '',''" by (simp add: nth_append)
    with comma_the_nth [OF pos k] show False by simp
  qed
qed

lemma Index_comma_the:
  "\<not> Contains (a @ b) '', the'' \<Longrightarrow> Index (a @ '', the'' @ b) '', the'' = int (length a)"
proof (induction a)
  case Nil
  show ?case using Index_HasPrefix [OF HasPrefix_self, of "'', the''" b] by simp
next
  case (Cons x a)
  from Cons.prems have nc: "\<not> Contains (a @ b) '', the''"
    using Index_Cons_nonneg [of "a @ b" "'', the''" x] by (auto simp: Contains_def)
  from Cons.prems have "\<not> HasPrefix ((x # a) @ b) '', the''"
    using Index_HasPrefix [of "(x # a) @ b" "'', the''"] by (auto simp: Contains_def)
  then have "\<not> HasPrefix ((x # a) @ '', the'' @ b) '', the''"
    by (intro no_early_comma_the) simp_all
  with Cons.IH [OF nc] show ?case by (simp add: Let_def)
qed

lemma no_the_prefix:
  assumes nc: "\<not> HasPrefix (a @ b) ''the ''"
  shows "\<not> HasPrefix (a @ '', the'' @ b) ''the ''"
proof
  assume hp: "HasPrefix (a @ '', the'' @ b) ''the ''"
  show False
  proof (cases "4 \<le> length a")
    case True
    with hp have "HasPrefix a ''the ''" by (simp add: HasPrefix_append)
    with True have "HasPrefix (a @ b) ''the ''" by (simp add: HasPrefix_append)
    with nc show False by simp
  next
    case False
    then have k: "length a < 4" by simp
    from HasPrefix_nth [OF hp, of "length a"] k
    have "(a @ '', the'' @ b) ! length a = ''the '' ! length a" by simp
    then have "''the '' ! length a = CHR '',''" by (simp add: nth_append)
    with the_nth [OF k] show False by simp
  qed
qed

subsection \<open>Split and Join\<close>

lemma Split_shape:
  "sep \<noteq> [] \<Longrightarrow> \<exists>p ps. Split r sep = p # ps \<and> length p \<le> length r \<and> Join (p # ps) sep = r"
proof (induction r sep rule: Split.induct)
  case (1 s sep)
  note sep = \<open>sep \<noteq> []\<close>
  show ?case
  proof (cases "Index s sep < 0")
    case True
    with sep have "Split s sep = [s]" by (subst Split.simps) simp
    then show ?thesis by simp
  next
    case False
    let ?m = "nat (Index s sep)"
    from "1.IH" [OF sep refl False sep]
    obtain p ps where ih: "Split (drop (?m + length sep) s) sep = p # ps"
      "Join (p # ps) sep = drop (?m + length sep) s" by blast
    from False Index_found [of s sep] have f: "?m \<le> length s" "HasPrefix (drop ?m s) sep"
      by simp_all
    from f(2) have "take (length sep) (drop ?m s) = sep" by (simp add: HasPrefix_def)
    then have "drop ?m s = sep @ drop (length sep) (drop ?m s)"
      by (metis append_take_drop_id)
    then have whole: "s = take ?m s @ sep @ drop (?m + length sep) s"
      by (metis append_take_drop_id drop_drop add.commute)
    from False sep ih(1) have "Split s sep = take ?m s # p # ps"
      by (subst Split.simps) (simp add: Let_def)
    moreover have "Join (take ?m s # p # ps) sep = s"
      using ih(2) whole by simp
    ultimately show ?thesis by simp
  qed
qed

lemma Join_extend_first:
  "Join ((p @ x) # ps) sep = p @ x @ drop (length p) (Join (p # ps) sep)"
  by (cases ps) simp_all

lemma correctedName_the:
  assumes "HasPrefix name ''the ''"
  shows "\<exists>p t. drop 4 name = p @ t \<and> correctedName name = p @ '', the'' @ t"
proof -
  obtain p ps where sp: "Split (drop 4 name) '' - '' = p # ps"
    and len: "length p \<le> length (drop 4 name)" and j: "Join (p # ps) '' - '' = drop 4 name"
    using Split_shape [of "'' - ''" "drop 4 name"] by auto
  have pre: "p = take (length p) (drop 4 name)"
  proof (cases ps)
    case Nil
    with j show ?thesis by simp
  next
    case (Cons q qs)
    with j have "drop 4 name = p @ '' - '' @ Join (q # qs) '' - ''" by simp
    then show ?thesis by (metis append_eq_conv_conj)
  qed
  let ?t = "drop (length p) (drop 4 name)"
  from pre have "drop 4 name = p @ ?t" by (metis append_take_drop_id)
  moreover have "correctedName name = p @ '', the'' @ ?t"
    using assms sp j by (simp add: correctedName_def Join_extend_first)
  ultimately show ?thesis by blast
qed

lemma the_prefix_split: "HasPrefix name ''the '' \<Longrightarrow> name = ''the '' @ drop 4 name"
proof -
  assume "HasPrefix name ''the ''"
  then have "take (length ''the '') name = ''the ''" by (simp only: HasPrefix_def)
  moreover have "length ''the '' = 4" by simp
  ultimately have "take 4 name = ''the ''" by metis
  then show ?thesis by (metis append_take_drop_id)
qed

text \<open>The two spellings are each other's corrected name.\<close>

lemma correctedName_round_trip:
  assumes the: "HasPrefix name ''the ''"
      and nothe: "\<not> HasPrefix (drop 4 name) ''the ''"
      and nocomma: "\<not> Contains (drop 4 name) '', the''"
  shows "\<not> HasPrefix (correctedName name) ''the ''
       \<and> Contains (correctedName name) '', the''
       \<and> correctedName (correctedName name) = name"
proof -
  from correctedName_the [OF the] obtain p t where
    r: "drop 4 name = p @ t" and cn: "correctedName name = p @ '', the'' @ t" by blast
  from nothe r have "\<not> HasPrefix (p @ t) ''the ''" by simp
  then have "\<not> HasPrefix (p @ '', the'' @ t) ''the ''" by (rule no_the_prefix)
  then have a: "\<not> HasPrefix (correctedName name) ''the ''" unfolding cn .
  from nocomma r have "\<not> Contains (p @ t) '', the''" by simp
  then have "Index (p @ '', the'' @ t) '', the'' = int (length p)" by (rule Index_comma_the)
  then have idx: "Index (correctedName name) '', the'' = int (length p)" unfolding cn .
  then have b: "Contains (correctedName name) '', the''" by (simp add: Contains_def)
  have "take (length p) (correctedName name) = p"
    and "drop (length p + 5) (correctedName name) = t"
    by (simp_all add: cn)
  with a idx have "correctedName (correctedName name) = ''the '' @ p @ t"
    by (simp add: correctedName_def [of "correctedName name"])
  with r the_prefix_split [OF the] have "correctedName (correctedName name) = name" by simp
  with a b show ?thesis by simp
qed

lemma ToLower_append: "ToLower (a @ b) = ToLower a @ ToLower b"
  by (simp add: ToLower_def)

lemma ToLower_drop: "ToLower (drop n s) = drop n (ToLower s)"
  by (simp add: ToLower_def drop_map)

lemma correctedName_lower:
  assumes the: "HasPrefix name ''the ''" and low: "ToLower name = name"
  shows "ToLower (correctedName name) = correctedName name"
proof -
  from correctedName_the [OF the] obtain p t where
    r: "drop 4 name = p @ t" and cn: "correctedName name = p @ '', the'' @ t" by blast
  from low have "ToLower (drop 4 name) = drop 4 name" by (simp add: ToLower_drop)
  with r have "ToLower p @ ToLower t = p @ t" by (simp add: ToLower_append)
  then have "ToLower p = p \<and> ToLower t = t" by (simp add: ToLower_def)
  then have "ToLower p @ ToLower '', the'' @ ToLower t = p @ ToLower '', the'' @ t" by simp
  moreover have "ToLower '', the'' = '', the''" by (simp add: ToLower_def lowerChar_def)
  ultimately have "ToLower p @ ToLower '', the'' @ ToLower t = p @ '', the'' @ t" by metis
  then show ?thesis unfolding cn ToLower_append .
qed

lemma set_getAlternateNames_False:
  "set (getAlternateNames n False)
   = {ToLower n}
     \<union> (if HasPrefix (ToLower n) ''the '' \<or> Contains (ToLower n) '', the''
        then {correctedName (ToLower n)} else {})
     \<union> set (withoutApostrophes (ToLower n))"
  by (subst getAlternateNames.simps) (auto simp: Let_def set_uniqueItems withoutApostrophes_def)

lemma set_getAlternateNames_True:
  "set (getAlternateNames n True)
   = {ToLower n}
     \<union> (if HasPrefix (ToLower n) ''the '' \<or> Contains (ToLower n) '', the''
        then {correctedName (ToLower n)} \<union> set (getAlternateNames (correctedName (ToLower n)) False)
        else {})
     \<union> set (withoutApostrophes (ToLower n))"
  by (subst getAlternateNames.simps) (auto simp: Let_def set_uniqueItems withoutApostrophes_def)

subsection \<open>The base name depends on the lowercased file name only\<close>

lemma of_char_lowerChar:
  "(of_char (lowerChar c) :: nat)
   = (if 65 \<le> (of_char c :: nat) \<and> (of_char c :: nat) \<le> 90 then of_char c + 32 else of_char c)"
  by (simp add: lowerChar_def)

lemma lowerChar_marker:
  assumes "m \<in> set ''.[(''"
  shows "lowerChar c = m \<longleftrightarrow> c = m"
proof -
  have "(lowerChar c = m) = ((of_char (lowerChar c) :: nat) = of_char m)" by simp
  also have "\<dots> = ((of_char c :: nat) = of_char m)"
    using assms by (auto simp: of_char_lowerChar)
  also have "\<dots> = (c = m)" by simp
  finally show ?thesis .
qed

lemma isSpace_lowerChar: "isSpace (lowerChar c) = isSpace c"
  by (auto simp: isSpace_def of_char_lowerChar)

lemma ToLower_TrimSpace: "ToLower (TrimSpace s) = TrimSpace (ToLower s)"
proof -
  have comp: "isSpace \<circ> lowerChar = isSpace" by (auto simp: isSpace_lowerChar)
  show ?thesis
    by (simp add: ToLower_def TrimSpace_def dropWhile_map rev_map comp)
qed

lemma marker_lower_pred:
  "(\<lambda>c. c \<notin> set ''.[('' - {lowerChar x}) \<circ> lowerChar = (\<lambda>c. c \<notin> set ''.[('' - {x})"
proof
  fix c
  have "lowerChar c \<in> set ''.[('' - {lowerChar x} \<longleftrightarrow> c \<in> set ''.[('' - {x}"
  proof
    assume l: "lowerChar c \<in> set ''.[('' - {lowerChar x}"
    then have m: "lowerChar c \<in> set ''.[(''" by simp
    from lowerChar_marker [OF m, of c] have cc: "lowerChar c = c" by simp
    with m l show "c \<in> set ''.[('' - {x}" by auto
  next
    assume r: "c \<in> set ''.[('' - {x}"
    then have m: "c \<in> set ''.[(''" by simp
    from lowerChar_marker [OF m, of c] have cc: "lowerChar c = c" by simp
    from lowerChar_marker [OF m, of x] r have "lowerChar x \<noteq> c" by auto
    with m cc show "lowerChar c \<in> set ''.[('' - {lowerChar x}" by simp
  qed
  then show "((\<lambda>c. c \<notin> set ''.[('' - {lowerChar x}) \<circ> lowerChar) c = (c \<notin> set ''.[('' - {x})"
    by (simp only: o_apply)
qed

lemma getBaseName_Cons_lower:
  "getBaseName (x # xs)
   = TrimSpace (lowerChar x # takeWhile (\<lambda>c. c \<notin> set ''.[('' - {lowerChar x}) (ToLower xs))"
proof -
  have "getBaseName (x # xs)
        = TrimSpace (ToLower (x # takeWhile (\<lambda>c. c \<notin> set ''.[('' - {x}) xs))"
    by (simp only: getBaseName_def cut3_Cons ToLower_TrimSpace)
  also have "ToLower (x # takeWhile (\<lambda>c. c \<notin> set ''.[('' - {x}) xs)
        = lowerChar x # takeWhile (\<lambda>c. c \<notin> set ''.[('' - {lowerChar x}) (ToLower xs)"
    unfolding ToLower_def takeWhile_map marker_lower_pred by simp
  finally show ?thesis .
qed

lemma getBaseName_lower_cong: "ToLower f = ToLower g \<Longrightarrow> getBaseName f = getBaseName g"
proof (cases f)
  case Nil
  assume "ToLower f = ToLower g"
  with Nil have "g = []" by (simp add: ToLower_def)
  with Nil show ?thesis by simp
next
  case (Cons x xs)
  assume eq: "ToLower f = ToLower g"
  with Cons obtain y ys where g: "g = y # ys" by (cases g) (auto simp: ToLower_def)
  with eq Cons have "lowerChar x = lowerChar y" "ToLower xs = ToLower ys"
    by (simp_all add: ToLower_def)
  with Cons g show ?thesis by (simp only: getBaseName_Cons_lower)
qed

text \<open>Replacing the extension of a name that does not begin with a dot keeps the base name.\<close>

lemma getBaseName_ext:
  assumes s: "stem \<noteq> []" and d: "hd stem \<noteq> CHR ''.''"
      and e: "e = [] \<or> hd e = CHR ''.''"
  shows "getBaseName (stem @ e) = getBaseName stem"
proof -
  from s obtain x xs where st: "stem = x # xs" by (cases stem) auto
  with d have x: "x \<noteq> CHR ''.''" by simp
  let ?P = "\<lambda>c. c \<notin> set ''.[('' - {x}"
  from x have dot: "\<not> ?P (CHR ''.'')" by simp
  have "takeWhile ?P e = []"
  proof (cases e)
    case Nil
    then show ?thesis by simp
  next
    case (Cons a as)
    with e have "a = CHR ''.''" by simp
    with Cons dot show ?thesis by simp
  qed
  then have "takeWhile ?P (xs @ e) = takeWhile ?P xs"
  proof (cases "\<forall>c\<in>set xs. ?P c")
    case True
    assume "takeWhile ?P e = []"
    with True show ?thesis by (simp only: takeWhile_append2 takeWhile_eq_all_conv [THEN iffD2]) simp
  next
    case False
    then obtain c where "c \<in> set xs" "\<not> ?P c" by blast
    then show ?thesis by (rule takeWhile_append1)
  qed
  then show ?thesis
    by (simp add: st getBaseName_def cut3_Cons del: foldl.simps)
qed

lemma getBaseName_config_name:
  assumes s: "stem \<noteq> []" and d: "hd stem \<noteq> CHR ''.''"
      and e: "e = [] \<or> hd e = CHR ''.''"
      and c: "ToLower c = ToLower (stem @ ''.cfg'')"
  shows "getBaseName c = getBaseName (stem @ e)"
proof -
  have "getBaseName c = getBaseName (stem @ ''.cfg'')" by (rule getBaseName_lower_cong [OF c])
  also have "\<dots> = getBaseName stem" by (rule getBaseName_ext [OF s d]) simp
  also have "\<dots> = getBaseName (stem @ e)" by (rule getBaseName_ext [OF s d e, symmetric])
  finally show ?thesis .
qed

subsection \<open>The extension is a suffix that starts at a dot\<close>

lemma extScan_shape:
  "extScan f acc = [] \<or> (\<exists>k<length f. f ! k = CHR ''.'' \<and> extScan f acc = rev (take (Suc k) f) @ acc)"
proof (induction f arbitrary: acc)
  case Nil
  then show ?case by simp
next
  case (Cons c f)
  show ?case
  proof (cases "IsPathSeparator c \<or> c = CHR ''.''")
    case True
    then show ?thesis by (auto intro!: exI [of _ 0])
  next
    case False
    from Cons.IH [of "c # acc"] show ?thesis
    proof
      assume "extScan f (c # acc) = []"
      with False show ?thesis by simp
    next
      assume "\<exists>k<length f. f ! k = CHR ''.'' \<and> extScan f (c # acc) = rev (take (Suc k) f) @ c # acc"
      then obtain k where "k < length f" "f ! k = CHR ''.''"
        "extScan f (c # acc) = rev (take (Suc k) f) @ c # acc" by blast
      with False show ?thesis by (auto intro!: exI [of _ "Suc k"])
    qed
  qed
qed

lemma Ext_shape:
  "Ext p = [] \<or> (\<exists>n<length p. p ! n = CHR ''.'' \<and> Ext p = drop n p)"
proof -
  from extScan_shape [of "rev p" "[]"] show ?thesis
  proof
    assume "extScan (rev p) [] = []"
    then show ?thesis by (simp add: Ext_def)
  next
    assume "\<exists>k<length (rev p). rev p ! k = CHR ''.'' \<and> extScan (rev p) [] = rev (take (Suc k) (rev p)) @ []"
    then obtain k where k: "k < length p" "rev p ! k = CHR ''.''"
      "Ext p = rev (take (Suc k) (rev p))" by (auto simp: Ext_def)
    let ?n = "length p - Suc k"
    from k(1) have n: "?n < length p" by simp
    from k(1,2) have "p ! ?n = CHR ''.''" by (simp add: rev_nth)
    moreover from k(1,3) have "Ext p = drop ?n p" by (simp add: take_rev)
    ultimately show ?thesis using n by blast
  qed
qed

lemma Ext_stem:
  "\<exists>stem. p = stem @ Ext p \<and> TrimSuffix p (Ext p) = stem
         \<and> (Ext p = [] \<or> hd (Ext p) = CHR ''.'')
         \<and> (p \<noteq> [] \<and> hd p \<noteq> CHR ''.'' \<longrightarrow> stem \<noteq> [] \<and> hd stem = hd p)"
proof -
  from Ext_shape [of p] show ?thesis
  proof
    assume e: "Ext p = []"
    then show ?thesis by (simp add: TrimSuffix_def HasSuffix_def)
  next
    assume "\<exists>n<length p. p ! n = CHR ''.'' \<and> Ext p = drop n p"
    then obtain n where n: "n < length p" "p ! n = CHR ''.''" "Ext p = drop n p" by blast
    have ts: "TrimSuffix p (Ext p) = take n p"
      using n(1) by (simp add: TrimSuffix_def HasSuffix_def n(3))
    have hd: "hd (Ext p) = CHR ''.''" using n by (simp add: hd_drop_conv_nth)
    have "take n p \<noteq> [] \<and> hd (take n p) = hd p" if "p \<noteq> []" "hd p \<noteq> CHR ''.''"
    proof -
      have "n \<noteq> 0"
      proof
        assume "n = 0"
        with n(2) that show False by (simp add: hd_conv_nth)
      qed
      with that(1) show ?thesis by (cases p; cases n) auto
    qed
    with ts hd n(3) show ?thesis by (intro exI [of _ "take n p"]) simp
  qed
qed

lemma Name_NewRom [simp]: "Name (NewRom f) = getBaseName f"
  by (simp add: NewRom_def Let_def)

lemma same_base_name:
  assumes rf: "rf \<noteq> []" "hd rf \<noteq> CHR ''.''"
      and same: "ConfigName (NewRom rf') = ConfigName (NewRom rf)"
      and eq: "ToLower cf = ToLower (ConfigName (NewRom rf))"
  shows "getBaseName cf = getBaseName rf'"
proof -
  from Ext_stem [of rf] rf obtain stem where st: "rf = stem @ Ext rf"
    "TrimSuffix rf (Ext rf) = stem" "stem \<noteq> []" "hd stem \<noteq> CHR ''.''" by auto
  from Ext_stem [of rf'] obtain stem' where st': "rf' = stem' @ Ext rf'"
    "TrimSuffix rf' (Ext rf') = stem'" "Ext rf' = [] \<or> hd (Ext rf') = CHR ''.''" by auto
  from same st(2) st'(2) have "stem' = stem" by (simp add: ConfigName_def)
  with st' have rf': "rf' = stem @ Ext rf'" by simp
  from eq st(2) have "ToLower cf = ToLower (stem @ ''.cfg'')" by (simp add: ConfigName_def)
  from getBaseName_config_name [OF st(3,4) st'(3) this] rf' show ?thesis by simp
qed


subsection \<open>The copy requests\<close>

lemma copyLoop_requests:
  "copyLoop p d flag s ms = Some (s', reqs, ms') \<Longrightarrow> req \<in> set reqs \<Longrightarrow>
   \<exists>m c r. m \<in> set ms \<and> eligible flag m \<and> configFile m = Some c \<and> rom m = Some r
          \<and> req = (d, FileName (snd c), ConfigName (snd r))"
proof (induction ms arbitrary: s s' reqs ms')
  case Nil
  then show ?case by simp
next
  case (Cons m ms)
  show ?case
  proof (cases "eligible flag m")
    case False
    with Cons.prems(1) obtain ms1 where "copyLoop p d flag s ms = Some (s', reqs, ms1)"
      by (auto simp: eligible_def)
    from Cons.IH [OF this Cons.prems(2)] show ?thesis by auto
  next
    case True
    with Cons.prems(1) obtain r where r: "rom m = Some r"
      by (cases "rom m") (auto simp: eligible_def)
    show ?thesis
    proof (cases "FileExists (fileManager p) s d (ConfigName (snd r))")
      case ex: True
      with True r Cons.prems(1) obtain ms1 where "copyLoop p d flag s ms = Some (s', reqs, ms1)"
        by (auto simp: eligible_def)
      from Cons.IH [OF this Cons.prems(2)] show ?thesis by auto
    next
      case nex: False
      show ?thesis
      proof (cases "commit p")
        case False
        with nex True r Cons.prems(1) obtain ms1 where "copyLoop p d flag s ms = Some (s', reqs, ms1)"
          by (auto simp: eligible_def)
        from Cons.IH [OF this Cons.prems(2)] show ?thesis by auto
      next
        case com: True
        with nex True r Cons.prems(1) obtain c where c: "configFile m = Some c"
          by (cases "configFile m") (auto simp: eligible_def)
        let ?s1 = "snd (CopyFileWithName (fileManager p) s d (FileName (snd c)) (ConfigName (snd r)))"
        from com nex True r c Cons.prems(1) obtain reqs1 ms1 where
          rec: "copyLoop p d flag ?s1 ms = Some (s', reqs1, ms1)"
          and reqs: "reqs = (d, FileName (snd c), ConfigName (snd r)) # reqs1"
          by (auto simp: eligible_def)
        from Cons.prems(2) reqs have "req = (d, FileName (snd c), ConfigName (snd r)) \<or> req \<in> set reqs1"
          by auto
        then show ?thesis
        proof
          assume "req = (d, FileName (snd c), ConfigName (snd r))"
          with True c r have "m \<in> set (m # ms) \<and> eligible flag m \<and> configFile m = Some c
              \<and> rom m = Some r \<and> req = (d, FileName (snd c), ConfigName (snd r))" by simp
          then show ?thesis by blast
        next
          assume "req \<in> set reqs1"
          from Cons.IH [OF rec this] show ?thesis by auto
        qed
      qed
    qed
  qed
qed

lemma copyLoop_existing_target:
  assumes keeps: "copyKeeps (fileManager p) d name"
  shows "FileExists (fileManager p) s d name \<Longrightarrow>
         copyLoop p d flag s ms = Some (s', reqs, ms') \<Longrightarrow>
         \<forall>req\<in>set reqs. snd (snd req) \<noteq> name"
proof (induction ms arbitrary: s s' reqs ms')
  case Nil
  then show ?case by simp
next
  case (Cons m ms)
  show ?case
  proof (cases "eligible flag m")
    case False
    with Cons.prems(2) obtain ms1 where "copyLoop p d flag s ms = Some (s', reqs, ms1)"
      by (auto simp: eligible_def)
    from Cons.IH [OF Cons.prems(1) this] show ?thesis .
  next
    case True
    with Cons.prems(2) obtain r where r: "rom m = Some r"
      by (cases "rom m") (auto simp: eligible_def)
    show ?thesis
    proof (cases "FileExists (fileManager p) s d (ConfigName (snd r))")
      case ex: True
      with True r Cons.prems(2) obtain ms1 where "copyLoop p d flag s ms = Some (s', reqs, ms1)"
        by (auto simp: eligible_def)
      from Cons.IH [OF Cons.prems(1) this] show ?thesis .
    next
      case nex: False
      show ?thesis
      proof (cases "commit p")
        case False
        with nex True r Cons.prems(2) obtain ms1 where "copyLoop p d flag s ms = Some (s', reqs, ms1)"
          by (auto simp: eligible_def)
        from Cons.IH [OF Cons.prems(1) this] show ?thesis .
      next
        case com: True
        with nex True r Cons.prems(2) obtain c where c: "configFile m = Some c"
          by (cases "configFile m") (auto simp: eligible_def)
        let ?s1 = "snd (CopyFileWithName (fileManager p) s d (FileName (snd c)) (ConfigName (snd r)))"
        from com nex True r c Cons.prems(2) obtain reqs1 ms1 where
          rec: "copyLoop p d flag ?s1 ms = Some (s', reqs1, ms1)"
          and reqs: "reqs = (d, FileName (snd c), ConfigName (snd r)) # reqs1"
          by (auto simp: eligible_def)
        from nex Cons.prems(1) have ne: "ConfigName (snd r) \<noteq> name" by auto
        from keeps Cons.prems(1) have "FileExists (fileManager p) ?s1 d name"
          by (simp add: copyKeeps_def)
        from Cons.IH [OF this rec] ne reqs show ?thesis by simp
      qed
    qed
  qed
qed

lemma stub_copyKeeps: "copyKeeps NewStubFileManager d name"
  by (auto simp: copyKeeps_def NewStubFileManager_def stubCopyFileWithName_def stubFileExists_def
        stubGetDirectoryContents_def split: option.splits)

lemma newRoms_mem: "f \<in> set ns \<Longrightarrow> \<exists>a. (a, NewRom f) \<in> set (newRoms b ns)"
proof -
  assume "f \<in> set ns"
  then obtain i where i: "i < length ns" "ns ! i = f" by (auto simp: in_set_conv_nth)
  with nth_newRoms [of i ns b] have "newRoms b ns ! i = (b + i, NewRom f)" by simp
  moreover from i have "i < length (newRoms b ns)" by simp
  ultimately show ?thesis by (metis nth_mem)
qed

lemma newRoms_snd: "x \<in> set (newRoms b ns) \<Longrightarrow> snd x = NewRom (FileName (snd x))"
proof -
  assume "x \<in> set (newRoms b ns)"
  then have "(fst x, snd x) \<in> set (zip [b ..< b + length ns] (map NewRom ns))"
    by (simp add: newRoms_def)
  then have "snd x \<in> set (map NewRom ns)" by (rule set_zip_rightD)
  then show ?thesis by auto
qed

lemma matchPair_exact_existing:
  assumes "Name (snd c) = Name (snd r)"
      and "ToLower (FileName (snd c)) = ToLower (ConfigName (snd r))"
  shows "matchPair c r = Some \<lparr>configFile = Some c, rom = Some r, matchType = MatchTypeExact,
                               isExisting = True\<rparr>"
  using assms by (simp add: matchPair_def)

lemma matchRomSets_pair:
  "m \<in> set (matchRomSets cs rs) \<Longrightarrow> configFile m = Some c \<Longrightarrow> rom m = Some r \<Longrightarrow>
   c \<in> set cs \<and> r \<in> set rs \<and> matchPair c r = Some m"
proof -
  assume m: "m \<in> set (matchRomSets cs rs)" and c: "configFile m = Some c" and r: "rom m = Some r"
  from m c r have "m \<in> set (pairMatches cs rs)"
    by (auto simp: matchRomSets_eq noneRom_def noneConfig_def)
  then obtain c' r' where cr: "c' \<in> set cs" "r' \<in> set rs" "matchPair c' r' = Some m"
    by (auto simp: pairMatches_iff)
  from matchPair_sides [OF cr(3)] c r have "c' = c" "r' = r" by simp_all
  with cr show ?thesis by simp
qed







text \<open>
  Where the two spellings do give the same alternate names: the remainder of the name
  neither begins with \<open>the\<close> again nor contains \<open>, the\<close>.
\<close>

lemma alternates_the_and_comma_form:
  assumes the: "HasPrefix (ToLower n) ''the ''"
      and nothe: "\<not> HasPrefix (drop 4 (ToLower n)) ''the ''"
      and nocomma: "\<not> Contains (drop 4 (ToLower n)) '', the''"
  shows "set (getAlternateNames n True) = set (getAlternateNames (correctedName (ToLower n)) True)"
proof -
  let ?name = "ToLower n"
  let ?comma = "correctedName ?name"
  from correctedName_round_trip [OF the nothe nocomma]
  have a: "\<not> HasPrefix ?comma ''the ''" and b: "Contains ?comma '', the''"
    and rt: "correctedName ?comma = ?name" by simp_all
  have lown: "ToLower ?name = ?name" by (rule ToLower_idem)
  from correctedName_lower [OF the lown] have lowc: "ToLower ?comma = ?comma" .
  have "set (getAlternateNames n True)
        = {?name, ?comma} \<union> set (withoutApostrophes ?comma) \<union> set (withoutApostrophes ?name)"
    using the a b rt lowc
    by (auto simp: set_getAlternateNames_True [of n] set_getAlternateNames_False [of ?comma])
  moreover have "set (getAlternateNames ?comma True)
        = {?name, ?comma} \<union> set (withoutApostrophes ?comma) \<union> set (withoutApostrophes ?name)"
    using the a b rt lowc lown
    by (auto simp: set_getAlternateNames_True [of ?comma] set_getAlternateNames_False [of ?name])
  ultimately show ?thesis by simp
qed

lemma Join_lines: "xs \<noteq> [] \<Longrightarrow> Join xs sep @ sep = concat (map (\<lambda>n. n @ sep) xs)"
  by (induction xs sep rule: Join.induct) simp_all

lemma logSection_line:
  assumes "x \<in> set names"
  shows "\<exists>earlier later. sortAlphabetical names = earlier @ x # later
           \<and> logSection title names
             = title @ newLine @ concat (map (\<lambda>n. n @ newLine) earlier) @ x @ newLine
               @ concat (map (\<lambda>n. n @ newLine) later) @ newLine"
proof -
  from assms have "x \<in> set (sortAlphabetical names)" by (simp add: set_sortAlphabetical)
  then obtain earlier later where sp: "sortAlphabetical names = earlier @ x # later"
    by (auto dest: split_list)
  then have ne: "sortAlphabetical names \<noteq> []" by simp
  from assms have len: "length names > 0" by (cases names) auto
  have "logSection title names
        = title @ newLine @ (Join (sortAlphabetical names) newLine @ newLine) @ newLine"
    using len by (simp add: logSection_def)
  also have "Join (sortAlphabetical names) newLine @ newLine
        = concat (map (\<lambda>n. n @ newLine) (sortAlphabetical names))"
    by (rule Join_lines [OF ne])
  also have "\<dots> = concat (map (\<lambda>n. n @ newLine) earlier) @ x @ newLine
               @ concat (map (\<lambda>n. n @ newLine) later)"
    by (simp add: sp)
  finally show ?thesis using sp by auto
qed

lemma logText_rom_line:
  assumes "x \<in> set (romsWithoutConfig l)"
  shows "\<exists>pre earlier later post.
           sortAlphabetical (romsWithoutConfig l) = earlier @ x # later
           \<and> logText cm rc cc rd cd l flag
             = pre @ ''ROMS WITH MISSING CONFIG'' @ newLine
               @ concat (map (\<lambda>n. n @ newLine) earlier) @ x @ newLine
               @ concat (map (\<lambda>n. n @ newLine) later) @ newLine @ post"
proof -
  from logSection_line [OF assms, of "''ROMS WITH MISSING CONFIG''"]
  obtain earlier later where sp: "sortAlphabetical (romsWithoutConfig l) = earlier @ x # later"
    and sec: "logSection ''ROMS WITH MISSING CONFIG'' (romsWithoutConfig l)
             = ''ROMS WITH MISSING CONFIG'' @ newLine @ concat (map (\<lambda>n. n @ newLine) earlier)
               @ x @ newLine @ concat (map (\<lambda>n. n @ newLine) later) @ newLine"
    by blast
  from logText_rom_section [of cm rc cc rd cd l flag] obtain pre post where
    "logText cm rc cc rd cd l flag
      = pre @ logSection ''ROMS WITH MISSING CONFIG'' (romsWithoutConfig l) @ post" by blast
  with sec have "logText cm rc cc rd cd l flag
             = pre @ ''ROMS WITH MISSING CONFIG'' @ newLine
               @ concat (map (\<lambda>n. n @ newLine) earlier) @ x @ newLine
               @ concat (map (\<lambda>n. n @ newLine) later) @ newLine @ post"
    by (simp only: append_assoc)
  with sp show ?thesis by blast
qed

lemma sorted_sortAlphabetical: "sorted (sortAlphabetical xs)"
  by (simp add: sortAlphabetical_def)

section \<open>The claims\<close>

subsection \<open>C1\<close>

text \<open>
  C1, as stated: a configuration identity gets at most one match against the whole ROM
  collection, and no lower-tier match is recorded for it besides. The label
  \<open>matchLoop\<close> is on the loop over the ROMs, so every ROM is tried: here one
  configuration file gets a fuzzy match with the first ROM and an exact match with the
  second.
\<close>

theorem C1_two_matches_for_one_config:
  "map (\<lambda>m. (map_option fst (configFile m), map_option fst (rom m), matchType m))
     (matchRomSets [(0, NewRom ''AeroFighter's Assault (USA).cfg'')]
        [(1, NewRom ''AeroFighters Assault (USA).n64''),
         (2, NewRom ''AeroFighter's Assault (USA).n64'')])
   = [(Some 0, Some 1, MatchTypeFuzzy), (Some 0, Some 2, MatchTypeExact)]"
  by code_simp

text \<open>
  C1, amended: for every pair of a configuration identity and a ROM identity the matcher
  records at most one match, and it is the one of the first rule that fires for that pair
  (exact, then alternate, then fuzzy); no record if none fires. The same configuration
  identity is matched against every ROM in this way.
\<close>

theorem C1_one_match_per_pair:
  assumes "distinct (map fst cs)" and "distinct (map fst rs)" and "c \<in> set cs" and "r \<in> set rs"
  shows "filter (\<lambda>m. configFile m = Some c \<and> rom m = Some r) (matchRomSets cs rs)
         = (if firstRule (snd c) (snd r) = MatchTypeNone then []
            else [\<lparr>configFile = Some c, rom = Some r, matchType = firstRule (snd c) (snd r),
                   isExisting = (firstRule (snd c) (snd r) = MatchTypeExact
                      \<and> ToLower (FileName (snd c)) = ToLower (ConfigName (snd r)))\<rparr>])"
proof -
  from assms(1,2) have "distinct cs" "distinct rs" by (simp_all add: distinct_map)
  from filter_matchRomSets [OF this assms(3,4)] show ?thesis
    by (simp add: matchPair_firstRule)
qed

theorem C1_witness:
  "distinct (map fst [(0::nat, NewRom ''AeroFighter's Assault (USA).cfg'')])
   \<and> distinct (map fst [(1::nat, NewRom ''AeroFighters Assault (USA).n64''),
                         (2, NewRom ''AeroFighter's Assault (USA).n64'')])
   \<and> (0::nat, NewRom ''AeroFighter's Assault (USA).cfg'')
       \<in> set [(0, NewRom ''AeroFighter's Assault (USA).cfg'')]
   \<and> (1::nat, NewRom ''AeroFighters Assault (USA).n64'')
       \<in> set [(1, NewRom ''AeroFighters Assault (USA).n64''),
               (2, NewRom ''AeroFighter's Assault (USA).n64'')]
   \<and> length (filter (\<lambda>m. configFile m = Some (0, NewRom ''AeroFighter's Assault (USA).cfg'')
                          \<and> rom m = Some (1, NewRom ''AeroFighters Assault (USA).n64''))
         (matchRomSets [(0, NewRom ''AeroFighter's Assault (USA).cfg'')]
            [(1, NewRom ''AeroFighters Assault (USA).n64''),
             (2, NewRom ''AeroFighter's Assault (USA).n64'')])) \<le> 1"
proof -
  let ?c = "(0::nat, NewRom ''AeroFighter's Assault (USA).cfg'')"
  let ?r1 = "(1::nat, NewRom ''AeroFighters Assault (USA).n64'')"
  let ?r2 = "(2::nat, NewRom ''AeroFighter's Assault (USA).n64'')"
  have h1: "distinct (map fst [?c])" by simp
  have h2: "distinct (map fst [?r1, ?r2])" by simp
  have h3: "?c \<in> set [?c]" by simp
  have h4: "?r1 \<in> set [?r1, ?r2]" by simp
  from C1_one_match_per_pair [OF h1 h2 h3 h4]
  have len: "length (filter (\<lambda>m. configFile m = Some ?c \<and> rom m = Some ?r1)
          (matchRomSets [?c] [?r1, ?r2])) \<le> 1"
    by simp
  show ?thesis by (intro conjI h1 h2 h3 h4 len)
qed

subsection \<open>C2\<close>

text \<open>
  C2, as stated: a dry run performs no writes and creates no file in either directory.
  \<open>produceLog\<close> runs whatever the commit flag is, and \<open>writeLogToFile\<close> writes the
  log, headed \<open>[DRY]\<close>, into the configuration directory.
\<close>

theorem C2_dry_run_writes_log_file:
  "map_option (\<lambda>out. (copies out, written out))
     (PatchDirectory (NewPatcher NewStubFileManager False) 0
        (stubWith [''AeroFighters Assault (USA).cfg''] [''AeroFighters Assault (USA).n64''])
        ''config'' ''roms'' MatchTypeFuzzy)
   = Some ([], [(''config'', ''patch-log.0.log'',
        ''[DRY]\<newline>\<newline>Found 1 config files in: config\<newline>Found 1 roms in: roms\<newline>\<newline>Missing ROMs: 0\<newline>Missing config: 0\<newline>\<newline>Created 0 new files\<newline>Skipped 0 new files\<newline>\<newline>'')])"
  by code_simp

text \<open>
  C2, amended: when the commit flag is false, \<open>PatchDirectory\<close> always returns, requests
  no file copy and leaves the state of the file manager as it was; the one file it writes
  is the log of the run, \<open>patch-log.<time>.log\<close> in the configuration directory, and it
  writes nothing when a listing fails.
\<close>

theorem C2_dry_run_only_writes_log:
  assumes dry: "\<not> commit p"
  shows "\<exists>out. PatchDirectory p now s configDirPath romDirPath matchFlag = Some out
           \<and> copies out = [] \<and> state out = s
           \<and> (case err out of
                 Some e \<Rightarrow> written out = []
               | None \<Rightarrow> (\<exists>log. written out
                             = [(configDirPath, ''patch-log.'' @ showInt now @ ''.log'', log)]))"
proof (cases "GetDirectoryContents (fileManager p) s configDirPath")
  case (Inl e)
  from PatchDirectory_config_error [OF this] show ?thesis by simp
next
  case c: (Inr configDirFiles)
  show ?thesis
  proof (cases "GetDirectoryContents (fileManager p) s romDirPath")
    case (Inl e)
    from PatchDirectory_rom_error [OF c this] show ?thesis by simp
  next
    case r: (Inr romDirFiles)
    obtain s' reqs ms l where
      loop: "copyLoop p configDirPath matchFlag s
         (matchRomSets (newRoms 0 (filterConfigFiles configDirFiles))
            (newRoms (length (filterConfigFiles configDirFiles)) romDirFiles)) = Some (s', reqs, ms)"
      and pd: "PatchDirectory p now s configDirPath romDirPath matchFlag
       = Some \<lparr>err = None, state = s', copies = reqs,
               written = [writeLogToFile now configDirPath
                  (logText (commit p) (length romDirFiles) (length (filterConfigFiles configDirFiles))
                     romDirPath configDirPath l matchFlag)],
               finalMatches = ms\<rparr>"
      by (rule PatchDirectory_returns [OF c r])
    from copyLoop_dry [OF dry loop] pd show ?thesis
      by (simp add: writeLogToFile_def)
  qed
qed

theorem C2_witness:
  "\<not> commit (NewPatcher NewStubFileManager False)
   \<and> (\<exists>out. PatchDirectory (NewPatcher NewStubFileManager False) 1700000000
               (stubWith [''AeroFighters Assault (USA).cfg''] [''AeroFighters Assault (USA).n64''])
               ''config'' ''roms'' MatchTypeFuzzy = Some out
           \<and> copies out = []
           \<and> state out = stubWith [''AeroFighters Assault (USA).cfg''] [''AeroFighters Assault (USA).n64'']
           \<and> (case err out of
                 Some e \<Rightarrow> written out = []
               | None \<Rightarrow> (\<exists>log. written out
                             = [(''config'', ''patch-log.'' @ showInt 1700000000 @ ''.log'', log)])))"
proof -
  have dry: "\<not> commit (NewPatcher NewStubFileManager False)"
    by (simp add: NewPatcher_def)
  show ?thesis
    by (rule conjI [OF dry C2_dry_run_only_writes_log [OF dry]])
qed

subsection \<open>C3\<close>

text \<open>
  C3, as stated: the report of a dry run is identical to the report of a committing run on
  the same listings. With two ROMs that give the same target, the committing run copies
  once and finds the target existing for the second match; the dry run copies nothing, so
  it marks nothing existing and reports two new files; and its report is headed
  \<open>[DRY]\<close>.
\<close>

theorem C3_dry_run_report_differs:
  "map_option (\<lambda>out. (copies out, map isExisting (finalMatches out), map (\<lambda>w. snd (snd w)) (written out)))
     (PatchDirectory (NewPatcher NewStubFileManager False) 0
        (stubWith [''Indy Racing 2000 (USA).cfg'']
           [''Indy Racing 2000 (U).v64'', ''Indy Racing 2000 (U).n64''])
        ''config'' ''roms'' MatchTypeFuzzy)
   = Some ([], [False, False],
       [''[DRY]\<newline>\<newline>Found 1 config files in: config\<newline>Found 2 roms in: roms\<newline>\<newline>Missing ROMs: 0\<newline>Missing config: 0\<newline>\<newline>Created 2 new files\<newline>Skipped 0 new files\<newline>\<newline>NEW FILES (EXACT MATCHES)\<newline>Indy Racing 2000 (U).n64 -> Indy Racing 2000 (U).cfg copied from: Indy Racing 2000 (USA).cfg\<newline>Indy Racing 2000 (U).v64 -> Indy Racing 2000 (U).cfg copied from: Indy Racing 2000 (USA).cfg\<newline>\<newline>''])
   \<and> map_option (\<lambda>out. (copies out, map isExisting (finalMatches out), map (\<lambda>w. snd (snd w)) (written out)))
     (PatchDirectory (NewPatcher NewStubFileManager True) 0
        (stubWith [''Indy Racing 2000 (USA).cfg'']
           [''Indy Racing 2000 (U).v64'', ''Indy Racing 2000 (U).n64''])
        ''config'' ''roms'' MatchTypeFuzzy)
   = Some ([(''config'', ''Indy Racing 2000 (USA).cfg'', ''Indy Racing 2000 (U).cfg'')], [False, True],
       [''Found 1 config files in: config\<newline>Found 2 roms in: roms\<newline>\<newline>Missing ROMs: 0\<newline>Missing config: 0\<newline>\<newline>Created 1 new files\<newline>Skipped 0 new files\<newline>\<newline>NEW FILES (EXACT MATCHES)\<newline>Indy Racing 2000 (U).v64 -> Indy Racing 2000 (U).cfg copied from: Indy Racing 2000 (USA).cfg\<newline>\<newline>''])"
  by code_simp

text \<open>
  C3, amended: on the same listings and with the same match flag, a dry run never issues a
  copy request and records the same matches, of the same tiers, as a committing run. Its
  report is headed \<open>[DRY]\<close>. Provided that a copy changes the answer of
  \<open>FileExists\<close> for the new name only and that no two matches the loop acts on have
  the same target name, the match records of both runs are equal, existing marks
  included, and the report of the dry run is the report of the committing run behind the
  \<open>[DRY]\<close> heading.
\<close>

theorem C3_dry_run_preview:
  assumes fm: "fileManager pd = fileManager pc" and dry: "\<not> commit pd" and com: "commit pc"
      and c: "GetDirectoryContents (fileManager pc) s configDirPath = Inr configDirFiles"
      and r: "GetDirectoryContents (fileManager pc) s romDirPath = Inr romDirFiles"
  shows "\<exists>od oc. PatchDirectory pd now s configDirPath romDirPath matchFlag = Some od
           \<and> PatchDirectory pc now s configDirPath romDirPath matchFlag = Some oc
           \<and> copies od = []
           \<and> map (\<lambda>m. (configFile m, rom m, matchType m)) (finalMatches od)
               = map (\<lambda>m. (configFile m, rom m, matchType m)) (finalMatches oc)
           \<and> (\<exists>log. written od
                 = [(configDirPath, ''patch-log.'' @ showInt now @ ''.log'',
                     ''[DRY]'' @ newLine @ newLine @ log)])
           \<and> (copyFrame (fileManager pc)
                \<and> distinct (pendingTargets matchFlag
                     (matchRomSets (newRoms 0 (filterConfigFiles configDirFiles))
                        (newRoms (length (filterConfigFiles configDirFiles)) romDirFiles)))
               \<longrightarrow> finalMatches od = finalMatches oc
                 \<and> (\<exists>log. written oc
                         = [(configDirPath, ''patch-log.'' @ showInt now @ ''.log'', log)]
                       \<and> written od
                         = [(configDirPath, ''patch-log.'' @ showInt now @ ''.log'',
                             ''[DRY]'' @ newLine @ newLine @ log)]))"
proof -
  let ?cs = "newRoms 0 (filterConfigFiles configDirFiles)"
  let ?rs = "newRoms (length (filterConfigFiles configDirFiles)) romDirFiles"
  let ?ms = "matchRomSets ?cs ?rs"
  let ?n = "''patch-log.'' @ showInt now @ ''.log''"
  let ?log = "\<lambda>cm l. logText cm (length romDirFiles) (length (filterConfigFiles configDirFiles))
                   romDirPath configDirPath l matchFlag"
  from c r fm have cd: "GetDirectoryContents (fileManager pd) s configDirPath = Inr configDirFiles"
    and rd: "GetDirectoryContents (fileManager pd) s romDirPath = Inr romDirFiles" by simp_all
  obtain sd reqsd msd ld where
    loopd: "copyLoop pd configDirPath matchFlag s ?ms = Some (sd, reqsd, msd)"
    and ld: "collectLog msd emptyLogLists = Some ld"
    and pdd: "PatchDirectory pd now s configDirPath romDirPath matchFlag
       = Some \<lparr>err = None, state = sd, copies = reqsd,
               written = [writeLogToFile now configDirPath (?log (commit pd) ld)],
               finalMatches = msd\<rparr>"
    by (rule PatchDirectory_returns [OF cd rd])
  obtain sc reqsc msc lc where
    loopc: "copyLoop pc configDirPath matchFlag s ?ms = Some (sc, reqsc, msc)"
    and lc: "collectLog msc emptyLogLists = Some lc"
    and pdc: "PatchDirectory pc now s configDirPath romDirPath matchFlag
       = Some \<lparr>err = None, state = sc, copies = reqsc,
               written = [writeLogToFile now configDirPath (?log (commit pc) lc)],
               finalMatches = msc\<rparr>"
    by (rule PatchDirectory_returns [OF c r])
  from copyLoop_dry [OF dry loopd] have nocopy: "reqsd = []" by simp
  have tiers: "map (\<lambda>m. (configFile m, rom m, matchType m)) msd
             = map (\<lambda>m. (configFile m, rom m, matchType m)) msc"
    using copyLoop_tiers [OF loopd] copyLoop_tiers [OF loopc] by simp
  have wd: "written \<lparr>err = None, state = sd, copies = reqsd,
               written = [writeLogToFile now configDirPath (?log (commit pd) ld)],
               finalMatches = msd\<rparr>
           = [(configDirPath, ?n, ''[DRY]'' @ newLine @ newLine @ ?log True ld)]"
    using dry by (simp add: writeLogToFile_def logText_dry)
  have same: "msd = msc \<and> ld = lc"
    if frame: "copyFrame (fileManager pc)" and dist: "distinct (pendingTargets matchFlag ?ms)"
  proof -
    have "\<forall>t\<in>set (pendingTargets matchFlag ?ms).
            FileExists (fileManager pc) s configDirPath t = FileExists (fileManager pc) s configDirPath t"
      by simp
    from copyLoop_dry_commit [OF fm dry com frame matchRomSets_wf dist this]
    obtain sc' reqs ms' where "copyLoop pd configDirPath matchFlag s ?ms = Some (s, [], ms')"
      and "copyLoop pc configDirPath matchFlag s ?ms = Some (sc', reqs, ms')" by blast
    with loopd loopc have "msd = msc" by simp
    with ld lc show ?thesis by simp
  qed
  show ?thesis
    apply (rule exI [of _ "\<lparr>err = None, state = sd, copies = reqsd,
               written = [writeLogToFile now configDirPath (?log (commit pd) ld)],
               finalMatches = msd\<rparr>"])
    apply (rule exI [of _ "\<lparr>err = None, state = sc, copies = reqsc,
               written = [writeLogToFile now configDirPath (?log (commit pc) lc)],
               finalMatches = msc\<rparr>"])
    using pdd pdc nocopy tiers wd same com
    apply (auto simp: writeLogToFile_def)
    done
qed


theorem C3_witness:
  "fileManager (NewPatcher NewStubFileManager False) = fileManager (NewPatcher NewStubFileManager True)
   \<and> \<not> commit (NewPatcher NewStubFileManager False)
   \<and> commit (NewPatcher NewStubFileManager True)
   \<and> copyFrame (fileManager (NewPatcher NewStubFileManager True))
   \<and> distinct (pendingTargets MatchTypeFuzzy
         (matchRomSets (newRoms 0 (filterConfigFiles [''New Tetris, The (USA).cfg'']))
            (newRoms (length (filterConfigFiles [''New Tetris, The (USA).cfg'']))
               [''The New Tetris (USA).n64''])))
   \<and> (\<exists>od oc.
         PatchDirectory (NewPatcher NewStubFileManager False) 0
           (stubWith [''New Tetris, The (USA).cfg''] [''The New Tetris (USA).n64''])
           ''config'' ''roms'' MatchTypeFuzzy = Some od
       \<and> PatchDirectory (NewPatcher NewStubFileManager True) 0
           (stubWith [''New Tetris, The (USA).cfg''] [''The New Tetris (USA).n64''])
           ''config'' ''roms'' MatchTypeFuzzy = Some oc
       \<and> copies od = []
       \<and> finalMatches od = finalMatches oc
       \<and> (\<exists>log. written oc = [(''config'', ''patch-log.'' @ showInt 0 @ ''.log'', log)]
               \<and> written od = [(''config'', ''patch-log.'' @ showInt 0 @ ''.log'',
                                 ''[DRY]'' @ newLine @ newLine @ log)]))"
proof -
  let ?pd = "NewPatcher NewStubFileManager False"
  let ?pc = "NewPatcher NewStubFileManager True"
  let ?s = "stubWith [''New Tetris, The (USA).cfg''] [''The New Tetris (USA).n64'']"
  have fm: "fileManager ?pd = fileManager ?pc" by (simp add: NewPatcher_def)
  have dry: "\<not> commit ?pd" by (simp add: NewPatcher_def)
  have com: "commit ?pc" by (simp add: NewPatcher_def)
  have c: "GetDirectoryContents (fileManager ?pc) ?s ''config'' = Inr [''New Tetris, The (USA).cfg'']"
    by (simp add: NewPatcher_def NewStubFileManager_def stubGetDirectoryContents_def
          stubWith_def SetDirectoryContents_def)
  have r: "GetDirectoryContents (fileManager ?pc) ?s ''roms'' = Inr [''The New Tetris (USA).n64'']"
    by (simp add: NewPatcher_def NewStubFileManager_def stubGetDirectoryContents_def
          stubWith_def SetDirectoryContents_def)
  have frame: "copyFrame (fileManager ?pc)"
    by (simp add: NewPatcher_def stub_copyFrame)
  have dist: "distinct (pendingTargets MatchTypeFuzzy
         (matchRomSets (newRoms 0 (filterConfigFiles [''New Tetris, The (USA).cfg'']))
            (newRoms (length (filterConfigFiles [''New Tetris, The (USA).cfg'']))
               [''The New Tetris (USA).n64''])))"
    by code_simp
  from C3_dry_run_preview [OF fm dry com c r, of 0 MatchTypeFuzzy] frame dist
  have "\<exists>od oc.
         PatchDirectory ?pd 0 ?s ''config'' ''roms'' MatchTypeFuzzy = Some od
       \<and> PatchDirectory ?pc 0 ?s ''config'' ''roms'' MatchTypeFuzzy = Some oc
       \<and> copies od = []
       \<and> finalMatches od = finalMatches oc
       \<and> (\<exists>log. written oc = [(''config'', ''patch-log.'' @ showInt 0 @ ''.log'', log)]
               \<and> written od = [(''config'', ''patch-log.'' @ showInt 0 @ ''.log'',
                                 ''[DRY]'' @ newLine @ newLine @ log)])"
    by blast
  then show ?thesis by (intro conjI fm dry com frame dist)
qed

subsection \<open>C4\<close>

text \<open>
  C4, as stated: with neither \<open>--exact-only\<close> nor \<open>--fuzzy\<close> the match flag is fuzzy and
  all three tiers are copied. The code starts from \<open>MatchTypeAlternate\<close>, so a fuzzy match
  is not eligible without \<open>--fuzzy\<close>.
\<close>

theorem C4_default_not_fuzzy:
  "selectMatchFlag False False \<noteq> MatchTypeFuzzy
   \<and> \<not> shouldInclude MatchTypeFuzzy (selectMatchFlag False False)"
  by (simp add: selectMatchFlag_def)

text \<open>
  C4, amended: with neither tier flag the match flag is \<open>MatchTypeAlternate\<close>; the tiers
  eligible for copying are then exactly the exact and the alternate tier, and the fuzzy
  tier becomes eligible with \<open>--fuzzy\<close>.
\<close>

theorem C4_default_alternate:
  "selectMatchFlag False False = MatchTypeAlternate
   \<and> shouldInclude t (selectMatchFlag False False)
       = (t = MatchTypeExact \<or> t = MatchTypeAlternate)
   \<and> shouldInclude MatchTypeFuzzy (selectMatchFlag False True)"
  by (cases t) (simp_all add: selectMatchFlag_def)

subsection \<open>C5\<close>

text \<open>
  C5: for every file name, the base name of its identity record is one of the record's
  alternate names.
\<close>

theorem C5_name_in_alternates: "Name (NewRom f) \<in> set (AlternateNames (NewRom f))"
  using name_in_getAlternateNames [of "getBaseName f" True]
  by (simp add: NewRom_def Let_def getBaseName_lower)

subsection \<open>C6\<close>



subsection \<open>C7\<close>

text \<open>
  C7: the alternate names of a base name that begins with \<open>the\<close> and those of its
  comma form are the same set. The code does not keep this for a name that contains
  \<open>, the\<close> already: \<open>getAlternateNames\<close> turns the comma form back at the first
  \<open>, the\<close> that \<open>strings.Index\<close> finds, not at the one that was appended, so
  that the name itself is not among the alternates of its comma form.
\<close>

theorem C7_comma_form_loses_name:
  "Name (NewRom ''The Good, the Bad and the Ugly (USA).n64'') = ''the good, the bad and the ugly''
   \<and> correctedName ''the good, the bad and the ugly'' = ''good, the bad and the ugly, the''
   \<and> Name (NewRom ''Good, the Bad and the Ugly, The (USA).n64'')
       = ''good, the bad and the ugly, the''
   \<and> AlternateNames (NewRom ''The Good, the Bad and the Ugly (USA).n64'')
       = [''the good, the bad and the ugly'', ''good, the bad and the ugly, the'',
          ''the good bad and the ugly, the'']
   \<and> AlternateNames (NewRom ''Good, the Bad and the Ugly, The (USA).n64'')
       = [''good, the bad and the ugly, the'', ''the good bad and the ugly, the'',
          ''good bad and the ugly, the, the'']
   \<and> set (AlternateNames (NewRom ''The Good, the Bad and the Ugly (USA).n64''))
       \<noteq> set (AlternateNames (NewRom ''Good, the Bad and the Ugly, The (USA).n64''))"
  by code_simp

subsection \<open>C8\<close>

text \<open>
  C8, as stated: when the name of a configuration file equals, ignoring case, the target
  name computed for a ROM, the match is marked existing and no copy to that target is
  ever requested. The mark is set for the exact match of that very pair only. A second
  configuration file that matches the same ROM is copied to the target whenever the file
  manager, comparing names exactly, does not find the target; and for a ROM whose name
  begins with a dot the base names differ, so that no match is recorded at all.
\<close>

theorem C8_copy_onto_case_variant:
  "ToLower ''foo (u).cfg'' = ToLower (ConfigName (NewRom ''Foo (U).n64''))
   \<and> map_option (\<lambda>out. (copies out, map isExisting (finalMatches out)))
       (PatchDirectory (NewPatcher NewStubFileManager True) 0
          (stubWith [''foo (u).cfg'', ''Foo (USA).cfg''] [''Foo (U).n64''])
          ''config'' ''roms'' MatchTypeExact)
     = Some ([(''config'', ''Foo (USA).cfg'', ''Foo (U).cfg'')], [True, False])
   \<and> ToLower ''.cfg'' = ToLower (ConfigName (NewRom ''.n64''))
   \<and> map_option (\<lambda>out. (copies out, map (\<lambda>m. (matchType m, isExisting m)) (finalMatches out)))
       (PatchDirectory (NewPatcher NewStubFileManager True) 0
          (stubWith [''.cfg''] [''.n64''])
          ''config'' ''roms'' MatchTypeFuzzy)
     = Some ([], [(MatchTypeNone, False), (MatchTypeNone, False)])"
  by code_simp

text \<open>
  C8, amended: when the name of a configuration file equals, ignoring case, the target
  name computed for a ROM whose name does not begin with a dot, the exact rule fires for
  the pair, its match record is marked existing, and that configuration file is never
  copied to that target. No copy to the target is requested from any other configuration
  file either, provided the file manager reports the target as existing and copies never
  make it disappear.
\<close>

theorem C8_existing_config_not_recopied:
  assumes c: "GetDirectoryContents (fileManager p) s configDirPath = Inr configDirFiles"
      and r: "GetDirectoryContents (fileManager p) s romDirPath = Inr romDirFiles"
      and cf: "cf \<in> set configDirFiles" "Ext cf = ''.cfg''"
      and rf: "rf \<in> set romDirFiles" "rf \<noteq> []" "hd rf \<noteq> CHR ''.''"
      and eq: "ToLower cf = ToLower (ConfigName (NewRom rf))"
  shows "\<exists>out. PatchDirectory p now s configDirPath romDirPath matchFlag = Some out
           \<and> err out = None
           \<and> (\<exists>m\<in>set (finalMatches out).
                 (\<exists>a b. configFile m = Some (a, NewRom cf) \<and> rom m = Some (b, NewRom rf))
                 \<and> matchType m = MatchTypeExact \<and> isExisting m)
           \<and> (\<forall>m\<in>set (finalMatches out). \<forall>a b.
                 configFile m = Some (a, NewRom cf) \<and> rom m = Some (b, NewRom rf)
                 \<longrightarrow> matchType m = MatchTypeExact \<and> isExisting m)
           \<and> (\<forall>req\<in>set (copies out).
                 \<not> (fst (snd req) = cf \<and> snd (snd req) = ConfigName (NewRom rf)))
           \<and> (copyKeeps (fileManager p) configDirPath (ConfigName (NewRom rf))
                \<and> FileExists (fileManager p) s configDirPath (ConfigName (NewRom rf))
               \<longrightarrow> (\<forall>req\<in>set (copies out). snd (snd req) \<noteq> ConfigName (NewRom rf)))"
proof -
  let ?cs = "newRoms 0 (filterConfigFiles configDirFiles)"
  let ?rs = "newRoms (length (filterConfigFiles configDirFiles)) romDirFiles"
  let ?T = "ConfigName (NewRom rf)"
  obtain s' reqs ms l where
    loop: "copyLoop p configDirPath matchFlag s (matchRomSets ?cs ?rs) = Some (s', reqs, ms)"
    and pd: "PatchDirectory p now s configDirPath romDirPath matchFlag
     = Some \<lparr>err = None, state = s', copies = reqs,
             written = [writeLogToFile now configDirPath
                (logText (commit p) (length romDirFiles) (length (filterConfigFiles configDirFiles))
                   romDirPath configDirPath l matchFlag)],
             finalMatches = ms\<rparr>"
    by (rule PatchDirectory_returns [OF c r])
  note mk = copyLoop_marked [OF loop]
  \<comment> \<open>any pair of these two names gives the exact, existing match\<close>
  have pair: "matchPair (a, NewRom cf) (b, NewRom rf')
        = Some \<lparr>configFile = Some (a, NewRom cf), rom = Some (b, NewRom rf'),
                matchType = MatchTypeExact, isExisting = True\<rparr>"
    if "ConfigName (NewRom rf') = ?T" for a b rf'
  proof -
    from same_base_name [OF rf(2,3) that eq] have "getBaseName cf = getBaseName rf'" .
    with eq that show ?thesis by (intro matchPair_exact_existing) simp_all
  qed
  \<comment> \<open>the record is there\<close>
  from cf have "cf \<in> set (filterConfigFiles configDirFiles)" by (simp add: in_filterConfigFiles)
  from newRoms_mem [OF this] obtain a where a: "(a, NewRom cf) \<in> set ?cs" by blast
  from newRoms_mem [OF rf(1)] obtain b where b: "(b, NewRom rf) \<in> set ?rs" by blast
  let ?m = "\<lparr>configFile = Some (a, NewRom cf), rom = Some (b, NewRom rf),
            matchType = MatchTypeExact, isExisting = True\<rparr>"
  from a b pair [of rf a b] have "?m \<in> set (matchRomSets ?cs ?rs)"
    by (auto simp: matchRomSets_eq pairMatches_iff)
  from marked_forth [OF mk this] obtain m' where m': "m' \<in> set ms" "marked ?m m'" by blast
  then have "m' = ?m" by (auto simp: marked_def)
  with m'(1) have there: "\<exists>m\<in>set ms.
      (\<exists>a b. configFile m = Some (a, NewRom cf) \<and> rom m = Some (b, NewRom rf))
      \<and> matchType m = MatchTypeExact \<and> isExisting m"
    by (intro bexI [of _ ?m]) simp_all
  \<comment> \<open>every record of the pair is exact and existing\<close>
  have every: "matchType m = MatchTypeExact \<and> isExisting m"
    if "m \<in> set ms" "configFile m = Some (a', NewRom cf)" "rom m = Some (b', NewRom rf)" for m a' b'
  proof -
    from marked_back [OF mk that(1)] obtain m0 where
      m0: "m0 \<in> set (matchRomSets ?cs ?rs)" "marked m0 m" by blast
    from marked_sides [OF m0(2)] that(2,3)
    have "configFile m0 = Some (a', NewRom cf)" "rom m0 = Some (b', NewRom rf)" by simp_all
    from matchRomSets_pair [OF m0(1) this] pair [of rf a' b'] have "m0 = \<lparr>configFile = Some (a', NewRom cf), rom = Some (b', NewRom rf),
                matchType = MatchTypeExact, isExisting = True\<rparr>" by simp
    with m0(2) show ?thesis by (auto simp: marked_def)
  qed
  \<comment> \<open>no copy from the file to the target\<close>
  have nocopy: "\<not> (fst (snd req) = cf \<and> snd (snd req) = ?T)" if "req \<in> set reqs" for req
  proof
    assume bad: "fst (snd req) = cf \<and> snd (snd req) = ?T"
    from copyLoop_requests [OF loop that] obtain m c' r' where
      m: "m \<in> set (matchRomSets ?cs ?rs)" "eligible matchFlag m"
         "configFile m = Some c'" "rom m = Some r'"
         "req = (configDirPath, FileName (snd c'), ConfigName (snd r'))" by blast
    from matchRomSets_pair [OF m(1,3,4)] have in_c: "c' \<in> set ?cs" and in_r: "r' \<in> set ?rs"
      and mp: "matchPair c' r' = Some m" by simp_all
    from bad m(5) have names: "FileName (snd c') = cf" "ConfigName (snd r') = ?T" by simp_all
    from newRoms_snd [OF in_c] names(1) have c': "c' = (fst c', NewRom cf)"
      by (cases c') simp
    from newRoms_snd [OF in_r] have r': "r' = (fst r', NewRom (FileName (snd r')))"
      by (cases r') simp
    from names(2) r' have "ConfigName (NewRom (FileName (snd r'))) = ?T" by (cases r') simp
    from pair [OF this, of "fst c'" "fst r'"] c' r' mp have "isExisting m" by (cases c'; cases r') auto
    with m(2) show False by (simp add: eligible_def)
  qed
  \<comment> \<open>no copy at all to a target the file manager sees\<close>
  have seen: "\<forall>req\<in>set reqs. snd (snd req) \<noteq> ?T"
    if "copyKeeps (fileManager p) configDirPath ?T" "FileExists (fileManager p) s configDirPath ?T"
    by (rule copyLoop_existing_target [OF that loop])
  from every have every': "\<forall>m\<in>set ms. \<forall>a b.
      configFile m = Some (a, NewRom cf) \<and> rom m = Some (b, NewRom rf)
      \<longrightarrow> matchType m = MatchTypeExact \<and> isExisting m" by blast
  from nocopy have nocopy': "\<forall>req\<in>set reqs. \<not> (fst (snd req) = cf \<and> snd (snd req) = ?T)" by blast
  show ?thesis
    apply (rule exI [of _ "\<lparr>err = None, state = s', copies = reqs,
             written = [writeLogToFile now configDirPath
                (logText (commit p) (length romDirFiles) (length (filterConfigFiles configDirFiles))
                   romDirPath configDirPath l matchFlag)],
             finalMatches = ms\<rparr>"])
    using pd there every' nocopy' seen
    apply simp
    done
qed

theorem C8_witness:
  "''The New Tetris (USA).cfg'' \<in> set [''The New Tetris (USA).cfg'', ''The New Tetris (U).cfg'']
   \<and> Ext ''The New Tetris (USA).cfg'' = ''.cfg''
   \<and> ''The New Tetris (USA).n64'' \<in> set [''The New Tetris (USA).n64'']
   \<and> ''The New Tetris (USA).n64'' \<noteq> []
   \<and> hd ''The New Tetris (USA).n64'' \<noteq> CHR ''.''
   \<and> ToLower ''The New Tetris (USA).cfg'' = ToLower (ConfigName (NewRom ''The New Tetris (USA).n64''))
   \<and> copyKeeps (fileManager (NewPatcher NewStubFileManager True)) ''config''
         (ConfigName (NewRom ''The New Tetris (USA).n64''))
   \<and> FileExists (fileManager (NewPatcher NewStubFileManager True))
         (stubWith [''The New Tetris (USA).cfg'', ''The New Tetris (U).cfg'']
            [''The New Tetris (USA).n64''])
         ''config'' (ConfigName (NewRom ''The New Tetris (USA).n64''))
   \<and> (\<exists>out. PatchDirectory (NewPatcher NewStubFileManager True) 0
               (stubWith [''The New Tetris (USA).cfg'', ''The New Tetris (U).cfg'']
                  [''The New Tetris (USA).n64''])
               ''config'' ''roms'' MatchTypeFuzzy = Some out
           \<and> err out = None
           \<and> (\<exists>m\<in>set (finalMatches out).
                 (\<exists>a b. configFile m = Some (a, NewRom ''The New Tetris (USA).cfg'')
                        \<and> rom m = Some (b, NewRom ''The New Tetris (USA).n64''))
                 \<and> matchType m = MatchTypeExact \<and> isExisting m)
           \<and> (\<forall>req\<in>set (copies out).
                 snd (snd req) \<noteq> ConfigName (NewRom ''The New Tetris (USA).n64'')))"
proof -
  let ?p = "NewPatcher NewStubFileManager True"
  let ?cfs = "[''The New Tetris (USA).cfg'', ''The New Tetris (U).cfg'']"
  let ?rfs = "[''The New Tetris (USA).n64'']"
  let ?s = "stubWith ?cfs ?rfs"
  let ?cf = "''The New Tetris (USA).cfg''"
  let ?rf = "''The New Tetris (USA).n64''"
  have c: "GetDirectoryContents (fileManager ?p) ?s ''config'' = Inr ?cfs"
    by (simp add: NewPatcher_def NewStubFileManager_def stubGetDirectoryContents_def
          stubWith_def SetDirectoryContents_def)
  have r: "GetDirectoryContents (fileManager ?p) ?s ''roms'' = Inr ?rfs"
    by (simp add: NewPatcher_def NewStubFileManager_def stubGetDirectoryContents_def
          stubWith_def SetDirectoryContents_def)
  have cf1: "?cf \<in> set ?cfs" by simp
  have cf2: "Ext ?cf = ''.cfg''" by code_simp
  have rf1: "?rf \<in> set ?rfs" by simp
  have rf2: "?rf \<noteq> []" by simp
  have rf3: "hd ?rf \<noteq> CHR ''.''" by simp
  have eq: "ToLower ?cf = ToLower (ConfigName (NewRom ?rf))" by code_simp
  have keeps: "copyKeeps (fileManager ?p) ''config'' (ConfigName (NewRom ?rf))"
    by (simp add: NewPatcher_def stub_copyKeeps)
  have ex: "FileExists (fileManager ?p) ?s ''config'' (ConfigName (NewRom ?rf))"
    by code_simp
  from C8_existing_config_not_recopied [OF c r cf1 cf2 rf1 rf2 rf3 eq, of 0 MatchTypeFuzzy]
  obtain out where o: "PatchDirectory ?p 0 ?s ''config'' ''roms'' MatchTypeFuzzy = Some out"
    "err out = None"
    "\<exists>m\<in>set (finalMatches out).
        (\<exists>a b. configFile m = Some (a, NewRom ?cf) \<and> rom m = Some (b, NewRom ?rf))
        \<and> matchType m = MatchTypeExact \<and> isExisting m"
    "copyKeeps (fileManager ?p) ''config'' (ConfigName (NewRom ?rf))
       \<and> FileExists (fileManager ?p) ?s ''config'' (ConfigName (NewRom ?rf))
     \<longrightarrow> (\<forall>req\<in>set (copies out). snd (snd req) \<noteq> ConfigName (NewRom ?rf))"
    by blast
  from o(4) keeps ex have "\<forall>req\<in>set (copies out). snd (snd req) \<noteq> ConfigName (NewRom ?rf)"
    by blast
  with o(1,2,3) have "\<exists>out. PatchDirectory ?p 0 ?s ''config'' ''roms'' MatchTypeFuzzy = Some out
           \<and> err out = None
           \<and> (\<exists>m\<in>set (finalMatches out).
                 (\<exists>a b. configFile m = Some (a, NewRom ?cf) \<and> rom m = Some (b, NewRom ?rf))
                 \<and> matchType m = MatchTypeExact \<and> isExisting m)
           \<and> (\<forall>req\<in>set (copies out). snd (snd req) \<noteq> ConfigName (NewRom ?rf))"
    by blast
  then show ?thesis by (intro conjI cf1 cf2 rf1 rf2 rf3 eq keeps ex)
qed

subsection \<open>C9\<close>

text \<open>
  C9: the listing of the ROM directory is not filtered. Every entry, at any position
  \<open>i\<close> and whatever its name, becomes an identity that has a match record; for every
  configuration identity the first rule that fires for the pair is recorded; and an
  entry with no positive match has the none-tier record, is in the list of ROMs without
  configuration, and its name is a line of the section \<open>ROMS WITH MISSING CONFIG\<close>,
  which lists those names in order, of the log that is written.
\<close>

theorem C9_rom_listing_not_filtered:
  assumes c: "GetDirectoryContents (fileManager p) s configDirPath = Inr configDirFiles"
      and r: "GetDirectoryContents (fileManager p) s romDirPath = Inr romDirFiles"
      and i: "i < length romDirFiles"
  shows "\<exists>out l log. PatchDirectory p now s configDirPath romDirPath matchFlag = Some out
           \<and> err out = None
           \<and> collectLog (finalMatches out) emptyLogLists = Some l
           \<and> written out = [(configDirPath, ''patch-log.'' @ showInt now @ ''.log'', log)]
           \<and> (let e = (length (filterConfigFiles configDirFiles) + i, NewRom (romDirFiles ! i)) in
                (\<exists>m\<in>set (finalMatches out). rom m = Some e)
              \<and> (\<forall>cf\<in>set (newRoms 0 (filterConfigFiles configDirFiles)).
                    firstRule (snd cf) (snd e) \<noteq> MatchTypeNone \<longrightarrow>
                    (\<exists>m\<in>set (finalMatches out).
                        configFile m = Some cf \<and> rom m = Some e
                        \<and> matchType m = firstRule (snd cf) (snd e)))
              \<and> ((\<forall>m\<in>set (finalMatches out). rom m = Some e \<longrightarrow> matchType m = MatchTypeNone) \<longrightarrow>
                    noneRom e \<in> set (finalMatches out)
                  \<and> romDirFiles ! i \<in> set (romsWithoutConfig l)
                  \<and> (\<exists>pre earlier later post.
                        sortAlphabetical (romsWithoutConfig l) = earlier @ romDirFiles ! i # later
                      \<and> sorted (earlier @ romDirFiles ! i # later)
                      \<and> log = pre @ ''ROMS WITH MISSING CONFIG'' @ newLine
                              @ concat (map (\<lambda>n. n @ newLine) earlier)
                              @ romDirFiles ! i @ newLine
                              @ concat (map (\<lambda>n. n @ newLine) later) @ newLine @ post)))"
proof -
  let ?cs = "newRoms 0 (filterConfigFiles configDirFiles)"
  let ?rs = "newRoms (length (filterConfigFiles configDirFiles)) romDirFiles"
  let ?e = "(length (filterConfigFiles configDirFiles) + i, NewRom (romDirFiles ! i))"
  obtain s' reqs ms l where
    loop: "copyLoop p configDirPath matchFlag s (matchRomSets ?cs ?rs) = Some (s', reqs, ms)"
    and l: "collectLog ms emptyLogLists = Some l"
    and pd: "PatchDirectory p now s configDirPath romDirPath matchFlag
     = Some \<lparr>err = None, state = s', copies = reqs,
             written = [writeLogToFile now configDirPath
                (logText (commit p) (length romDirFiles) (length (filterConfigFiles configDirFiles))
                   romDirPath configDirPath l matchFlag)],
             finalMatches = ms\<rparr>"
    by (rule PatchDirectory_returns [OF c r])
  note mk = copyLoop_marked [OF loop]
  let ?log = "logText (commit p) (length romDirFiles)
        (length (filterConfigFiles configDirFiles)) romDirPath configDirPath l matchFlag"
  have e: "?e \<in> set ?rs"
    using i nth_newRoms [of i romDirFiles "length (filterConfigFiles configDirFiles)"]
    by (metis length_newRoms nth_mem)
  \<comment> \<open>every entry has a record\<close>
  have rec0: "\<exists>m\<in>set (matchRomSets ?cs ?rs). rom m = Some ?e"
  proof (cases "list_ex (\<lambda>m. samePtr (rom m) ?e) (pairMatches ?cs ?rs)")
    case True
    then obtain m where m: "m \<in> set (pairMatches ?cs ?rs)" "samePtr (rom m) ?e"
      by (auto simp: list_ex_iff)
    then obtain cf rr where cr: "cf \<in> set ?cs" "rr \<in> set ?rs" "matchPair cf rr = Some m"
      by (auto simp: pairMatches_iff)
    from matchPair_sides [OF cr(3)] m(2) have "fst rr = fst ?e" by (simp add: samePtr_Some)
    from newRoms_same [OF cr(2) e this] matchPair_sides [OF cr(3)] have "rom m = Some ?e" by simp
    with m(1) show ?thesis by (auto simp: matchRomSets_eq)
  next
    case False
    with e have "?e \<in> set (unmatchedRoms ?cs ?rs)" by (simp add: unmatchedRoms_def)
    then have "noneRom ?e \<in> set (matchRomSets ?cs ?rs)" by (simp add: matchRomSets_eq)
    then show ?thesis by (auto simp: noneRom_def intro!: bexI [of _ "noneRom ?e"])
  qed
  have rec: "\<exists>m\<in>set ms. rom m = Some ?e"
  proof -
    from rec0 obtain m where m: "m \<in> set (matchRomSets ?cs ?rs)" "rom m = Some ?e" by blast
    from marked_forth [OF mk m(1)] obtain m' where m': "m' \<in> set ms" "marked m m'" by blast
    from marked_sides [OF m'(2)] m(2) have "rom m' = Some ?e" by simp
    with m'(1) show ?thesis by blast
  qed
  \<comment> \<open>every rule that fires is recorded\<close>
  have part: "\<exists>m\<in>set ms. configFile m = Some cf \<and> rom m = Some ?e
                \<and> matchType m = firstRule (snd cf) (snd ?e)"
    if "cf \<in> set ?cs" "firstRule (snd cf) (snd ?e) \<noteq> MatchTypeNone" for cf
  proof -
    from that(2) obtain m0 where mp: "matchPair cf ?e = Some m0"
      and ty: "matchType m0 = firstRule (snd cf) (snd ?e)"
      by (simp add: matchPair_firstRule [of cf ?e])
    from that(1) e mp have "m0 \<in> set (matchRomSets ?cs ?rs)"
      by (auto simp: matchRomSets_eq pairMatches_iff)
    from marked_forth [OF mk this] obtain m' where m': "m' \<in> set ms" "marked m0 m'" by blast
    from marked_sides [OF m'(2)] matchPair_sides [OF mp] ty
    have "configFile m' = Some cf \<and> rom m' = Some ?e
          \<and> matchType m' = firstRule (snd cf) (snd ?e)" by simp
    with m'(1) show ?thesis by blast
  qed
  \<comment> \<open>an entry without a positive match is reported\<close>
  have none: "noneRom ?e \<in> set ms \<and> romDirFiles ! i \<in> set (romsWithoutConfig l)
      \<and> (\<exists>pre earlier later post.
            sortAlphabetical (romsWithoutConfig l) = earlier @ romDirFiles ! i # later
          \<and> sorted (earlier @ romDirFiles ! i # later)
          \<and> ?log = pre @ ''ROMS WITH MISSING CONFIG'' @ newLine
                  @ concat (map (\<lambda>n. n @ newLine) earlier)
                  @ romDirFiles ! i @ newLine
                  @ concat (map (\<lambda>n. n @ newLine) later) @ newLine @ post)"
    if all: "\<forall>m\<in>set ms. rom m = Some ?e \<longrightarrow> matchType m = MatchTypeNone"
  proof -
    have "\<not> list_ex (\<lambda>m. samePtr (rom m) ?e) (pairMatches ?cs ?rs)"
    proof
      assume "list_ex (\<lambda>m. samePtr (rom m) ?e) (pairMatches ?cs ?rs)"
      then obtain m where m: "m \<in> set (pairMatches ?cs ?rs)" "samePtr (rom m) ?e"
        by (auto simp: list_ex_iff)
      then obtain cf rr where cr: "cf \<in> set ?cs" "rr \<in> set ?rs" "matchPair cf rr = Some m"
        by (auto simp: pairMatches_iff)
      from matchPair_sides [OF cr(3)] m(2) have "fst rr = fst ?e" by (simp add: samePtr_Some)
      from newRoms_same [OF cr(2) e this] matchPair_sides [OF cr(3)] have re: "rom m = Some ?e" by simp
      from m(1) have "m \<in> set (matchRomSets ?cs ?rs)" by (simp add: matchRomSets_eq)
      from marked_forth [OF mk this] obtain m' where m': "m' \<in> set ms" "marked m m'" by blast
      from marked_sides [OF m'(2)] re have "rom m' = Some ?e" "matchType m' = matchType m" by simp_all
      with m'(1) all have "matchType m = MatchTypeNone" by auto
      with pairMatches_positive [OF m(1)] show False by simp
    qed
    with e have "?e \<in> set (unmatchedRoms ?cs ?rs)" by (simp add: unmatchedRoms_def)
    then have "noneRom ?e \<in> set (matchRomSets ?cs ?rs)" by (simp add: matchRomSets_eq)
    from marked_forth [OF mk this] obtain m' where m': "m' \<in> set ms" "marked (noneRom ?e) m'" by blast
    then have eq: "m' = noneRom ?e" by (simp add: marked_def noneRom_def)
    with m' have in_ms: "noneRom ?e \<in> set ms" by simp
    have "unmatchedRomName (noneRom ?e) = Some (romDirFiles ! i)"
      by (simp add: unmatchedRomName_def noneRom_def)
    with in_ms have "romDirFiles ! i \<in> set (List.map_filter unmatchedRomName ms)"
      by (auto simp: in_map_filter)
    with collectLog_lists [OF l] have inl: "romDirFiles ! i \<in> set (romsWithoutConfig l)"
      by (simp add: emptyLogLists_def)
    from logText_rom_line [OF inl, of "commit p" "length romDirFiles"
        "length (filterConfigFiles configDirFiles)" romDirPath configDirPath matchFlag]
    obtain pre earlier later post where
      sp: "sortAlphabetical (romsWithoutConfig l) = earlier @ romDirFiles ! i # later"
      and tx: "?log = pre @ ''ROMS WITH MISSING CONFIG'' @ newLine
                  @ concat (map (\<lambda>n. n @ newLine) earlier)
                  @ romDirFiles ! i @ newLine
                  @ concat (map (\<lambda>n. n @ newLine) later) @ newLine @ post"
      by blast
    from sp sorted_sortAlphabetical [of "romsWithoutConfig l"]
    have "sorted (earlier @ romDirFiles ! i # later)" by simp
    with sp tx in_ms inl show ?thesis by blast
  qed
  from part have part': "\<forall>cf\<in>set ?cs. firstRule (snd cf) (snd ?e) \<noteq> MatchTypeNone \<longrightarrow>
      (\<exists>m\<in>set ms. configFile m = Some cf \<and> rom m = Some ?e
         \<and> matchType m = firstRule (snd cf) (snd ?e))" by blast
  show ?thesis
    apply (rule exI [of _ "\<lparr>err = None, state = s', copies = reqs,
             written = [writeLogToFile now configDirPath ?log],
             finalMatches = ms\<rparr>"])
    apply (rule exI [of _ l])
    apply (rule exI [of _ ?log])
    using pd l rec part' none
    apply (simp add: writeLogToFile_def Let_def)
    done
qed


theorem C9_witness:
  "(0::nat) < length [''Game.bin'', ''readme.txt'']
   \<and> (1::nat) < length [''Game.bin'', ''readme.txt'']
   \<and> firstRule (NewRom ''Game.cfg'') (NewRom ''Game.bin'') = MatchTypeExact
   \<and> (\<exists>out l pre earlier later post.
         PatchDirectory (NewPatcher NewStubFileManager False) 0
           (stubWith [''Game.cfg''] [''Game.bin'', ''readme.txt''])
           ''config'' ''roms'' MatchTypeFuzzy = Some out
       \<and> err out = None
       \<and> collectLog (finalMatches out) emptyLogLists = Some l
       \<and> (\<exists>m\<in>set (finalMatches out).
             configFile m = Some (0, NewRom ''Game.cfg'') \<and> rom m = Some (1, NewRom ''Game.bin'')
             \<and> matchType m = MatchTypeExact)
       \<and> noneRom (2, NewRom ''readme.txt'') \<in> set (finalMatches out)
       \<and> ''readme.txt'' \<in> set (romsWithoutConfig l)
       \<and> written out
           = [(''config'', ''patch-log.'' @ showInt 0 @ ''.log'',
               pre @ ''ROMS WITH MISSING CONFIG'' @ newLine
               @ concat (map (\<lambda>n. n @ newLine) earlier)
               @ ''readme.txt'' @ newLine
               @ concat (map (\<lambda>n. n @ newLine) later) @ newLine @ post)])"
proof -
  let ?p = "NewPatcher NewStubFileManager False"
  let ?roms = "[''Game.bin'', ''readme.txt'']"
  let ?s = "stubWith [''Game.cfg''] ?roms"
  let ?PD = "PatchDirectory ?p 0 ?s ''config'' ''roms'' MatchTypeFuzzy"
  have c: "GetDirectoryContents (fileManager ?p) ?s ''config'' = Inr [''Game.cfg'']"
    by (simp add: NewPatcher_def NewStubFileManager_def stubGetDirectoryContents_def
          stubWith_def SetDirectoryContents_def)
  have r: "GetDirectoryContents (fileManager ?p) ?s ''roms'' = Inr ?roms"
    by (simp add: NewPatcher_def NewStubFileManager_def stubGetDirectoryContents_def
          stubWith_def SetDirectoryContents_def)
  have i0: "(0::nat) < length ?roms" by simp
  have i1: "(1::nat) < length ?roms" by simp
  have fl: "filterConfigFiles [''Game.cfg''] = [''Game.cfg'']" by code_simp
  have cfs: "newRoms 0 [''Game.cfg''] = [(0, NewRom ''Game.cfg'')]"
    by (simp add: newRoms_def)
  have fr: "firstRule (NewRom ''Game.cfg'') (NewRom ''Game.bin'') = MatchTypeExact" by code_simp
  have ev: "map_option (\<lambda>out. map (\<lambda>m. (map_option fst (rom m), matchType m)) (finalMatches out)) ?PD
            = Some [(Some 1, MatchTypeExact), (Some 2, MatchTypeNone)]"
    by code_simp
  from C9_rom_listing_not_filtered [OF c r i0, of 0 MatchTypeFuzzy]
  obtain out where pd: "?PD = Some out" and er: "err out = None"
    and first: "\<forall>cf\<in>set (newRoms 0 (filterConfigFiles [''Game.cfg''])).
        firstRule (snd cf) (NewRom (?roms ! 0)) \<noteq> MatchTypeNone \<longrightarrow>
        (\<exists>m\<in>set (finalMatches out).
            configFile m = Some cf
            \<and> rom m = Some (length (filterConfigFiles [''Game.cfg'']) + 0, NewRom (?roms ! 0))
            \<and> matchType m = firstRule (snd cf) (NewRom (?roms ! 0)))"
    by (auto simp: Let_def)
  from first fr have rec: "\<exists>m\<in>set (finalMatches out).
             configFile m = Some (0, NewRom ''Game.cfg'') \<and> rom m = Some (1, NewRom ''Game.bin'')
             \<and> matchType m = MatchTypeExact"
    by (simp add: fl cfs)
  from ev pd have fm: "map (\<lambda>m. (map_option fst (rom m), matchType m)) (finalMatches out)
            = [(Some 1, MatchTypeExact), (Some 2, MatchTypeNone)]" by simp
  have unmatched: "\<forall>m\<in>set (finalMatches out).
        rom m = Some (length (filterConfigFiles [''Game.cfg'']) + 1, NewRom (?roms ! 1))
        \<longrightarrow> matchType m = MatchTypeNone"
  proof (intro ballI impI)
    fix m assume m: "m \<in> set (finalMatches out)"
      and rm: "rom m = Some (length (filterConfigFiles [''Game.cfg'']) + 1, NewRom (?roms ! 1))"
    from m have "(map_option fst (rom m), matchType m)
        \<in> set (map (\<lambda>m. (map_option fst (rom m), matchType m)) (finalMatches out))" by simp
    with fm rm show "matchType m = MatchTypeNone" by (simp add: fl)
  qed
  from C9_rom_listing_not_filtered [OF c r i1, of 0 MatchTypeFuzzy] pd unmatched
  obtain l pre earlier later post where l: "collectLog (finalMatches out) emptyLogLists = Some l"
    and nr: "noneRom (length (filterConfigFiles [''Game.cfg'']) + 1, NewRom (?roms ! 1))
               \<in> set (finalMatches out)"
    and inl: "?roms ! 1 \<in> set (romsWithoutConfig l)"
    and wr: "written out
           = [(''config'', ''patch-log.'' @ showInt 0 @ ''.log'',
               pre @ ''ROMS WITH MISSING CONFIG'' @ newLine
               @ concat (map (\<lambda>n. n @ newLine) earlier)
               @ ?roms ! 1 @ newLine
               @ concat (map (\<lambda>n. n @ newLine) later) @ newLine @ post)]"
    by (auto simp: Let_def)
  have two: "length (filterConfigFiles [''Game.cfg'']) + 1 = (2::nat)" by (simp add: fl)
  have "[''Game.bin'', ''readme.txt''] ! 1 = ''readme.txt''" by simp
  with nr two have nr': "noneRom (2, NewRom ''readme.txt'') \<in> set (finalMatches out)"
    by (simp only:)
  from inl have inl': "''readme.txt'' \<in> set (romsWithoutConfig l)" by simp
  from wr have wr': "written out
           = [(''config'', ''patch-log.'' @ showInt 0 @ ''.log'',
               pre @ ''ROMS WITH MISSING CONFIG'' @ newLine
               @ concat (map (\<lambda>n. n @ newLine) earlier)
               @ ''readme.txt'' @ newLine
               @ concat (map (\<lambda>n. n @ newLine) later) @ newLine @ post)]"
    by simp
  from pd er l rec nr' inl' wr' have "\<exists>out l pre earlier later post.
         ?PD = Some out
       \<and> err out = None
       \<and> collectLog (finalMatches out) emptyLogLists = Some l
       \<and> (\<exists>m\<in>set (finalMatches out).
             configFile m = Some (0, NewRom ''Game.cfg'') \<and> rom m = Some (1, NewRom ''Game.bin'')
             \<and> matchType m = MatchTypeExact)
       \<and> noneRom (2, NewRom ''readme.txt'') \<in> set (finalMatches out)
       \<and> ''readme.txt'' \<in> set (romsWithoutConfig l)
       \<and> written out
           = [(''config'', ''patch-log.'' @ showInt 0 @ ''.log'',
               pre @ ''ROMS WITH MISSING CONFIG'' @ newLine
               @ concat (map (\<lambda>n. n @ newLine) earlier)
               @ ''readme.txt'' @ newLine
               @ concat (map (\<lambda>n. n @ newLine) later) @ newLine @ post)]"
    by blast
  then show ?thesis by (intro conjI i0 i1 fr)
qed

subsection \<open>C10\<close>

text \<open>
  C10: the filter on the configuration directory compares the extension with the exact
  string \<open>.cfg\<close>. An entry with any other extension, \<open>.CFG\<close> included, gives no
  configuration identity: it is in no match record and is not in the list of
  configuration files without ROM that the log reports.
\<close>

theorem C10_cfg_filter_case_sensitive:
  assumes c: "GetDirectoryContents (fileManager p) s configDirPath = Inr configDirFiles"
      and r: "GetDirectoryContents (fileManager p) s romDirPath = Inr romDirFiles"
      and f: "Ext f \<noteq> ''.cfg''"
  shows "\<exists>out l. PatchDirectory p now s configDirPath romDirPath matchFlag = Some out
           \<and> err out = None
           \<and> collectLog (finalMatches out) emptyLogLists = Some l
           \<and> written out =
               [writeLogToFile now configDirPath
                  (logText (commit p) (length romDirFiles)
                     (length (filterConfigFiles configDirFiles))
                     romDirPath configDirPath l matchFlag)]
           \<and> f \<notin> set (filterConfigFiles configDirFiles)
           \<and> (\<forall>m\<in>set (finalMatches out). \<forall>cf. configFile m = Some cf \<longrightarrow> FileName (snd cf) \<noteq> f)
           \<and> f \<notin> set (configWithoutRoms l)"
proof -
  let ?cs = "newRoms 0 (filterConfigFiles configDirFiles)"
  let ?rs = "newRoms (length (filterConfigFiles configDirFiles)) romDirFiles"
  obtain s' reqs ms l where
    loop: "copyLoop p configDirPath matchFlag s (matchRomSets ?cs ?rs) = Some (s', reqs, ms)"
    and l: "collectLog ms emptyLogLists = Some l"
    and pd: "PatchDirectory p now s configDirPath romDirPath matchFlag
     = Some \<lparr>err = None, state = s', copies = reqs,
             written = [writeLogToFile now configDirPath
                (logText (commit p) (length romDirFiles) (length (filterConfigFiles configDirFiles))
                   romDirPath configDirPath l matchFlag)],
             finalMatches = ms\<rparr>"
    by (rule PatchDirectory_returns [OF c r])
  have nf: "f \<notin> set (filterConfigFiles configDirFiles)"
    using f by (simp add: in_filterConfigFiles)
  have names: "FileName (snd cf) \<noteq> f" if "m \<in> set ms" "configFile m = Some cf" for m cf
  proof -
    from marked_back [OF copyLoop_marked [OF loop] that(1)]
    obtain m0 where m0: "m0 \<in> set (matchRomSets ?cs ?rs)" "marked m0 m" by blast
    with that(2) have "configFile m0 = Some cf" by (simp add: marked_sides)
    from matchRomSets_config [OF m0(1) this] have "FileName (snd cf) \<in> set (filterConfigFiles configDirFiles)"
      by (rule in_newRoms)
    with nf show ?thesis by auto
  qed
  have nc: "f \<notin> set (configWithoutRoms l)"
  proof
    assume "f \<in> set (configWithoutRoms l)"
    with collectLog_lists [OF l] have "f \<in> set (List.map_filter unmatchedConfigName ms)"
      by (simp add: emptyLogLists_def)
    then obtain m where "m \<in> set ms" "unmatchedConfigName m = Some f"
      by (auto simp: in_map_filter)
    then show False using names [of m]
      by (auto simp: unmatchedConfigName_def split: if_splits)
  qed
  have "\<forall>m\<in>set ms. \<forall>cf. configFile m = Some cf \<longrightarrow> FileName (snd cf) \<noteq> f"
    using names by blast
  with pd l nf nc show ?thesis by simp
qed

theorem C10_witness:
  "Ext ''Game.CFG'' \<noteq> ''.cfg''
   \<and> (\<exists>out l. PatchDirectory (NewPatcher NewStubFileManager False) 0
                 (stubWith [''Game.CFG''] [''Game.n64'']) ''config'' ''roms'' MatchTypeFuzzy
               = Some out
           \<and> err out = None
           \<and> collectLog (finalMatches out) emptyLogLists = Some l
           \<and> ''Game.CFG'' \<notin> set (filterConfigFiles [''Game.CFG''])
           \<and> (\<forall>m\<in>set (finalMatches out). \<forall>cf. configFile m = Some cf \<longrightarrow> FileName (snd cf) \<noteq> ''Game.CFG'')
           \<and> ''Game.CFG'' \<notin> set (configWithoutRoms l))"
proof -
  let ?p = "NewPatcher NewStubFileManager False"
  let ?s = "stubWith [''Game.CFG''] [''Game.n64'']"
  have c: "GetDirectoryContents (fileManager ?p) ?s ''config'' = Inr [''Game.CFG'']"
    by (simp add: NewPatcher_def NewStubFileManager_def stubGetDirectoryContents_def
          stubWith_def SetDirectoryContents_def)
  have r: "GetDirectoryContents (fileManager ?p) ?s ''roms'' = Inr [''Game.n64'']"
    by (simp add: NewPatcher_def NewStubFileManager_def stubGetDirectoryContents_def
          stubWith_def SetDirectoryContents_def)
  have f: "Ext ''Game.CFG'' \<noteq> ''.cfg''"
    by (simp add: Ext_def IsPathSeparator_def)
  from C10_cfg_filter_case_sensitive [OF c r f, of 0 MatchTypeFuzzy] f
  show ?thesis by blast
qed

end
